theory Spec2Isabelle
  imports Complex_Main "HOL-Library.Product_Lexorder" "HOL-Library.Sublist"
begin

section \<open>Text\<close>

text \<open>
  A Python \<open>str\<close> is a sequence of code points; it is modelled as a \<open>string\<close>, one
  \<open>char\<close> per code point, so the model speaks of the strings over the code points 0 to 255
  (Latin-1). The character classes below are the ones Python uses (\<open>str.isdigit\<close>,
  \<open>str.isspace\<close>, \<open>str.isupper\<close>, \<open>str.islower\<close>, and the classes \<open>\d\<close>, \<open>\s\<close>, \<open>\w\<close>
  of \<open>re\<close> on a \<open>str\<close> pattern), as the Unicode database defines them on these code
  points.
\<close>

text \<open>The class \<open>\d\<close>, which is also \<open>[0-9]\<close> and what \<open>int\<close> accepts: the decimal
  digits.\<close>

definition is_digit :: "char \<Rightarrow> bool" where
  "is_digit c = (48 \<le> (of_char c :: nat) \<and> (of_char c :: nat) \<le> 57)"

text \<open>\<open>c.isdigit()\<close>: the decimal digits and the superscript digits \<open>0xB2\<close>, \<open>0xB3\<close>
  and \<open>0xB9\<close>.\<close>

definition isdigit_char :: "char \<Rightarrow> bool" where
  "isdigit_char c = (is_digit c \<or> (of_char c :: nat) = 178 \<or> (of_char c :: nat) = 179
     \<or> (of_char c :: nat) = 185)"

text \<open>The class \<open>[A-Za-z]\<close>.\<close>

definition is_alpha :: "char \<Rightarrow> bool" where
  "is_alpha c = ((65 \<le> (of_char c :: nat) \<and> (of_char c :: nat) \<le> 90)
     \<or> (97 \<le> (of_char c :: nat) \<and> (of_char c :: nat) \<le> 122))"

text \<open>\<open>c.isupper()\<close>: \<open>A\<close> to \<open>Z\<close> and the capital letters \<open>0xC0\<close> to \<open>0xDE\<close>, the
  multiplication sign \<open>0xD7\<close> apart.\<close>

definition is_upper_char :: "char \<Rightarrow> bool" where
  "is_upper_char c = ((65 \<le> (of_char c :: nat) \<and> (of_char c :: nat) \<le> 90)
     \<or> (192 \<le> (of_char c :: nat) \<and> (of_char c :: nat) \<le> 214)
     \<or> (216 \<le> (of_char c :: nat) \<and> (of_char c :: nat) \<le> 222))"

text \<open>\<open>c.islower()\<close>: \<open>a\<close> to \<open>z\<close>, the ordinal indicators \<open>0xAA\<close> and \<open>0xBA\<close>, the micro
  sign \<open>0xB5\<close>, and the small letters \<open>0xDF\<close> to \<open>0xFF\<close>, the division sign \<open>0xF7\<close>
  apart.\<close>

definition is_lower_char :: "char \<Rightarrow> bool" where
  "is_lower_char c = ((97 \<le> (of_char c :: nat) \<and> (of_char c :: nat) \<le> 122)
     \<or> (of_char c :: nat) = 170 \<or> (of_char c :: nat) = 181 \<or> (of_char c :: nat) = 186
     \<or> (223 \<le> (of_char c :: nat) \<and> (of_char c :: nat) \<le> 246)
     \<or> (248 \<le> (of_char c :: nat) \<and> (of_char c :: nat) \<le> 255))"

text \<open>Python's whitespace (\<open>c.isspace()\<close>, the class \<open>\s\<close>, the separators of
  \<open>str.split()\<close>): tab, newline, vertical tab, form feed, carriage return, the separators
  \<open>0x1c\<close> to \<open>0x1f\<close>, the space, the next-line control \<open>0x85\<close> and the no-break space
  \<open>0xA0\<close>.\<close>

definition is_space :: "char \<Rightarrow> bool" where
  "is_space c = ((9 \<le> (of_char c :: nat) \<and> (of_char c :: nat) \<le> 13)
     \<or> (28 \<le> (of_char c :: nat) \<and> (of_char c :: nat) \<le> 32)
     \<or> (of_char c :: nat) = 133 \<or> (of_char c :: nat) = 160)"

text \<open>The class \<open>\w\<close>: the underscore and every alphanumeric character, which are the
  letters, the digits of \<open>str.isdigit\<close> and the fractions \<open>0xBC\<close> to \<open>0xBE\<close>.\<close>

definition is_word :: "char \<Rightarrow> bool" where
  "is_word c = (is_upper_char c \<or> is_lower_char c \<or> isdigit_char c
     \<or> (188 \<le> (of_char c :: nat) \<and> (of_char c :: nat) \<le> 190) \<or> c = CHR ''_'')"

text \<open>
  \<open>str.upper\<close> and \<open>str.lower\<close>, character by character. The uppercase of the sharp s
  \<open>0xDF\<close> is \<open>SS\<close>. The uppercase of the micro sign \<open>0xB5\<close> is the code point \<open>0x39C\<close>
  and that of \<open>0xFF\<close> is \<open>0x178\<close>: a \<open>char\<close> cannot hold them, \<open>upper_char\<close> leaves
  these two characters as they are, and what is stated below of \<open>str_upper\<close> is stated of
  the strings without them (\<open>upper_in_range\<close>). Every lowercase of a character below
  256 is below 256.
\<close>

definition upper_char :: "char \<Rightarrow> string" where
  "upper_char c =
     (if (97 \<le> (of_char c :: nat) \<and> (of_char c :: nat) \<le> 122)
         \<or> (224 \<le> (of_char c :: nat) \<and> (of_char c :: nat) \<le> 246)
         \<or> (248 \<le> (of_char c :: nat) \<and> (of_char c :: nat) \<le> 254)
      then [char_of ((of_char c :: nat) - 32)]
      else if (of_char c :: nat) = 223 then ''SS''
      else [c])"

definition lower_char :: "char \<Rightarrow> char" where
  "lower_char c = (if is_upper_char c then char_of ((of_char c :: nat) + 32) else c)"

definition str_upper :: "string \<Rightarrow> string" where
  "str_upper s = concat (map upper_char s)"

definition str_lower :: "string \<Rightarrow> string" where
  "str_lower s = map lower_char s"

definition upper_in_range :: "string \<Rightarrow> bool" where
  "upper_in_range s = list_all (\<lambda>c. (of_char c :: nat) \<noteq> 181 \<and> (of_char c :: nat) \<noteq> 255) s"

text \<open>\<open>str.isupper\<close>: no lowercase character and at least one uppercase one;
  \<open>str.islower\<close> is the dual (no character below 256 is titlecase); \<open>str.isdigit\<close>: not
  empty and every character a digit.\<close>

definition isupper :: "string \<Rightarrow> bool" where
  "isupper s = (list_ex is_upper_char s \<and> \<not> list_ex is_lower_char s)"

definition islower :: "string \<Rightarrow> bool" where
  "islower s = (list_ex is_lower_char s \<and> \<not> list_ex is_upper_char s)"

definition isdigit :: "string \<Rightarrow> bool" where
  "isdigit s = (s \<noteq> [] \<and> list_all isdigit_char s)"

text \<open>\<open>int(d)\<close> on one decimal digit. (On a superscript digit \<open>int\<close> raises
  \<open>ValueError\<close>; the one caller, \<open>_luhn_check\<close>, is reached from \<open>detect\<close> with
  characters that \<open>\d\<close> has matched, see \<open>card_digits_decimal\<close> below.)\<close>

definition digit_value :: "char \<Rightarrow> int" where
  "digit_value c = int (of_char c) - 48"

text \<open>The slice \<open>text[i:j]\<close> for \<open>0 \<le> i\<close>, \<open>0 \<le> j\<close>: Python clamps both ends to the length.\<close>

definition slice :: "string \<Rightarrow> nat \<Rightarrow> nat \<Rightarrow> string" where
  "slice text i j = take (j - i) (drop i text)"

text \<open>\<open>str.split()\<close> with no argument: the maximal runs of non-whitespace.\<close>

fun split_from :: "string \<Rightarrow> string \<Rightarrow> string list" where
  "split_from cur [] = (if cur = [] then [] else [cur])"
| "split_from cur (c # cs) =
     (if is_space c then (if cur = [] then split_from [] cs else cur # split_from [] cs)
      else split_from (cur @ [c]) cs)"

definition split :: "string \<Rightarrow> string list" where
  "split s = split_from [] s"

text \<open>\<open>text.replace(old, new, 1)\<close>: the first occurrence of \<open>old\<close>, scanning from the
  left, is replaced; an empty \<open>old\<close> matches at the very start.\<close>

fun replace_first :: "string \<Rightarrow> string \<Rightarrow> string \<Rightarrow> string" where
  "replace_first old new [] = (if old = [] then new else [])"
| "replace_first old new (c # cs) =
     (if prefix old (c # cs) then new @ drop (length old) (c # cs)
      else c # replace_first old new cs)"

text \<open>\<open>sub in text\<close> on strings.\<close>

fun contains :: "string \<Rightarrow> string \<Rightarrow> bool" where
  "contains [] sub = (sub = [])"
| "contains (c # cs) sub = (prefix sub (c # cs) \<or> contains cs sub)"

text \<open>\<open>str(n)\<close> for a non-negative integer.\<close>

fun str_of_nat :: "nat \<Rightarrow> string" where
  "str_of_nat n = (if n < 10 then [char_of (48 + n)]
     else str_of_nat (n div 10) @ [char_of (48 + n mod 10)])"

section \<open>Data model (models.py)\<close>

datatype PIIType = EMAIL | PHONE | FULL_NAME | FIRST_NAME | LAST_NAME | CREDIT_CARD

record DetectionResult =
  pii_type :: PIIType
  original_value :: string
  confidence :: real
  start_pos :: int
  end_pos :: int

record SanitizationResult =
  success :: bool
  records_processed :: nat
  pii_fields_detected :: nat
  pii_replacements_made :: nat
  error_message :: "string option"

section \<open>Regular expressions\<close>

text \<open>
  The patterns of the detectors use character classes under a greedy bounded repetition,
  the assertion \<open>\b\<close>, concatenation and alternation. \<open>ends r text i\<close> lists the
  positions where a match of \<open>r\<close> starting at \<open>i\<close> can end, in the order in which the
  backtracking matcher of \<open>re\<close> tries them: a greedy repetition takes the longest run first
  and gives characters back one at a time, an alternation tries its left branch first.
  The match found at \<open>i\<close> is the first of the list.
\<close>

datatype regex =
    Rep "char \<Rightarrow> bool" nat "nat option"
  | WordBoundary
  | Cat regex regex
  | Alt regex regex

text \<open>The length of the run of characters of class \<open>p\<close> at the head of a string, cut at
  the upper bound of the repetition.\<close>

fun run_length :: "(char \<Rightarrow> bool) \<Rightarrow> nat option \<Rightarrow> string \<Rightarrow> nat" where
  "run_length p bound [] = 0"
| "run_length p bound (c # cs) =
     (if bound = Some 0 \<or> \<not> p c then 0
      else Suc (run_length p (map_option (\<lambda>b. b - 1) bound) cs))"

definition word_before :: "string \<Rightarrow> nat \<Rightarrow> bool" where
  "word_before text i = (0 < i \<and> i \<le> length text \<and> is_word (text ! (i - 1)))"

definition word_after :: "string \<Rightarrow> nat \<Rightarrow> bool" where
  "word_after text i = (i < length text \<and> is_word (text ! i))"

fun ends :: "regex \<Rightarrow> string \<Rightarrow> nat \<Rightarrow> nat list" where
  "ends (Rep p lo hi) text i =
     (let k = run_length p hi (drop i text)
      in if k < lo then [] else rev (map (\<lambda>n. i + n) [lo ..< Suc k]))"
| "ends WordBoundary text i = (if word_before text i \<noteq> word_after text i then [i] else [])"
| "ends (Cat r s) text i = concat (map (ends s text) (ends r text i))"
| "ends (Alt r s) text i = ends r text i @ ends s text i"

text \<open>
  \<open>pattern.finditer(text)\<close>: the non-overlapping matches from left to right, as pairs
  \<open>(match.start(), match.end())\<close>. After a match the scan resumes at its end; where no
  match starts at \<open>i\<close> it resumes at \<open>i + 1\<close>. None of the patterns below can match the
  empty string (their minimal width is positive), so the branch taken after an empty match is
  never reached by a detector.
\<close>

function finditer :: "regex \<Rightarrow> string \<Rightarrow> nat \<Rightarrow> (nat \<times> nat) list" where
  "finditer r text i =
     (if length text < i then []
      else case ends r text i of
             [] \<Rightarrow> finditer r text (i + 1)
           | e # _ \<Rightarrow> (i, e) # finditer r text (if i < e then e else i + 1))"
  by pat_completeness auto
termination
  by (relation "measure (\<lambda>(r, text, i). Suc (length text) - i)") auto

declare finditer.simps [simp del]

text \<open>Building blocks of the patterns.\<close>

definition Lit :: "char \<Rightarrow> regex" where
  "Lit c = Rep (\<lambda>x. x = c) 1 (Some 1)"

definition Opt :: "(char \<Rightarrow> bool) \<Rightarrow> regex" where
  "Opt p = Rep p 0 (Some 1)"

definition Plus :: "(char \<Rightarrow> bool) \<Rightarrow> regex" where
  "Plus p = Rep p 1 None"

definition Digits :: "nat \<Rightarrow> nat \<Rightarrow> regex" where
  "Digits lo hi = Rep is_digit lo (Some hi)"

fun Seq :: "regex list \<Rightarrow> regex" where
  "Seq [r] = r"
| "Seq (r # rs) = Cat r (Seq rs)"
| "Seq [] = Rep (\<lambda>_. False) 0 (Some 0)"

section \<open>Detectors\<close>

text \<open>Each \<open>detect\<close> starts with \<open>if not isinstance(text, str): return []\<close>; here \<open>text\<close>
  is a string by type, so the guard has no branch. None of the three detectors reads
  \<open>field_name\<close>.\<close>

subsection \<open>email\_detector.py\<close>

text \<open>\<^verbatim>\<open>\b[A-Za-z0-9._%+-]+@[A-Za-z0-9.-]+\.[A-Z|a-z]{2,}\b\<close>\<close>

definition email_local :: "char \<Rightarrow> bool" where
  "email_local c = (is_alpha c \<or> is_digit c \<or> c \<in> set ''._%+-'')"

definition email_domain :: "char \<Rightarrow> bool" where
  "email_domain c = (is_alpha c \<or> is_digit c \<or> c \<in> set ''.-'')"

definition email_tld :: "char \<Rightarrow> bool" where
  "email_tld c = (is_alpha c \<or> c = CHR ''|'')"

definition EMAIL_PATTERN :: regex where
  "EMAIL_PATTERN = Seq [WordBoundary, Plus email_local, Lit CHR ''@'', Plus email_domain,
     Lit CHR ''.'', Rep email_tld 2 None, WordBoundary]"

definition email_detect :: "string \<Rightarrow> string \<Rightarrow> DetectionResult list" where
  "email_detect text field_name =
     map (\<lambda>(s, e). \<lparr>pii_type = EMAIL, original_value = slice text s e, confidence = 1,
                    start_pos = int s, end_pos = int e\<rparr>)
         (finditer EMAIL_PATTERN text 0)"

subsection \<open>credit\_card\_detector.py\<close>

text \<open>\<^verbatim>\<open>\b(?:\d{4}[\s\-]?\d{4}[\s\-]?\d{4}[\s\-]?\d{3,7}|\d{4}[\s\-]?\d{6}[\s\-]?\d{5})\b\<close>\<close>

definition card_sep :: "char \<Rightarrow> bool" where
  "card_sep c = (is_space c \<or> c = CHR ''-'')"

definition CARD_PATTERN :: regex where
  "CARD_PATTERN = Seq [WordBoundary,
     Alt (Seq [Digits 4 4, Opt card_sep, Digits 4 4, Opt card_sep, Digits 4 4, Opt card_sep,
               Digits 3 7])
         (Seq [Digits 4 4, Opt card_sep, Digits 6 6, Opt card_sep, Digits 5 5]),
     WordBoundary]"

text \<open>The loop \<open>for i in range(1, len(digits), 2)\<close> of \<open>_luhn_check\<close>.\<close>

function luhn_double :: "nat \<Rightarrow> int list \<Rightarrow> int list" where
  "luhn_double i digits =
     (if i < length digits
      then luhn_double (i + 2)
             (digits[i := (if digits ! i * 2 > 9 then digits ! i * 2 - 9 else digits ! i * 2)])
      else digits)"
  by pat_completeness auto
termination
  by (relation "measure (\<lambda>(i, digits). length digits - i)") auto

declare luhn_double.simps [simp del]

definition luhn_check :: "string \<Rightarrow> bool" where
  "luhn_check card_number =
     (if \<not> isdigit card_number then False
      else let digits = map digit_value (rev card_number);
               total = sum_list (luhn_double 1 digits)
           in total mod 10 = 0)"

definition card_detect :: "string \<Rightarrow> string \<Rightarrow> DetectionResult list" where
  "card_detect text field_name =
     concat (map (\<lambda>(s, e).
        let card_with_separators = slice text s e;
            digits_only = filter (\<lambda>c. \<not> card_sep c) card_with_separators
        in if \<not> (13 \<le> length digits_only \<and> length digits_only \<le> 19) then []
           else if \<not> luhn_check digits_only then []
           else [\<lparr>pii_type = CREDIT_CARD, original_value = card_with_separators,
                   confidence = 1, start_pos = int s, end_pos = int e\<rparr>])
        (finditer CARD_PATTERN text 0))"

subsection \<open>phone\_detector.py\<close>

text \<open>
  \<^verbatim>\<open>\+\d{1,3}[-.\s]?\(?\d{1,4}\)?[-.\s]?\d{1,4}[-.\s]?\d{1,4}[-.\s]?\d{1,4}\<close>,
  \<^verbatim>\<open>\(\d{3}\)\s?\d{3}[-.\s]?\d{4}\<close>,
  \<^verbatim>\<open>\b\d{3}[-.\s]\d{3}[-.\s]\d{4}\b\<close> and
  \<^verbatim>\<open>\b\d{10,15}\b\<close>.
\<close>

definition phone_sep :: "char \<Rightarrow> bool" where
  "phone_sep c = (c = CHR ''-'' \<or> c = CHR ''.'' \<or> is_space c)"

definition PHONE_PATTERNS :: "regex list" where
  "PHONE_PATTERNS =
     [Seq [Lit CHR ''+'', Digits 1 3, Opt phone_sep, Opt (\<lambda>c. c = CHR ''(''), Digits 1 4,
           Opt (\<lambda>c. c = CHR '')''), Opt phone_sep, Digits 1 4, Opt phone_sep, Digits 1 4,
           Opt phone_sep, Digits 1 4],
      Seq [Lit CHR ''('', Digits 3 3, Lit CHR '')'', Opt is_space, Digits 3 3, Opt phone_sep,
           Digits 4 4],
      Seq [WordBoundary, Digits 3 3, Rep phone_sep 1 (Some 1), Digits 3 3,
           Rep phone_sep 1 (Some 1), Digits 4 4, WordBoundary],
      Seq [WordBoundary, Digits 10 15, WordBoundary]]"

text \<open>The matches of one pattern that pass the digit count, as \<open>(start, end, phone)\<close>.\<close>

definition phone_candidates :: "regex \<Rightarrow> string \<Rightarrow> (nat \<times> nat \<times> string) list" where
  "phone_candidates pattern text =
     concat (map (\<lambda>(s, e).
        let phone = slice text s e;
            digit_count = length (filter isdigit_char phone)
        in if digit_count < 10 \<or> digit_count > 15 then [] else [(s, e, phone)])
        (finditer pattern text 0))"

definition phone_all_matches :: "string \<Rightarrow> (nat \<times> nat \<times> string) list" where
  "phone_all_matches text = concat (map (\<lambda>pattern. phone_candidates pattern text) PHONE_PATTERNS)"

text \<open>The key of \<open>all_matches.sort\<close>: \<open>(x[0], -(x[1] - x[0]))\<close>. Python's sort is stable, and
  so is \<open>sort_key\<close>.\<close>

definition phone_key :: "nat \<times> nat \<times> string \<Rightarrow> int \<times> int" where
  "phone_key x = (case x of (s, e, phone) \<Rightarrow> (int s, - (int e - int s)))"

definition overlaps_used :: "nat \<Rightarrow> nat \<Rightarrow> (nat \<times> nat) list \<Rightarrow> bool" where
  "overlaps_used s e used_ranges =
     list_ex (\<lambda>(used_start, used_end). \<not> (e \<le> used_start \<or> s \<ge> used_end)) used_ranges"

text \<open>The selection loop, with its two accumulators \<open>used_ranges\<close> and \<open>results\<close>.\<close>

fun phone_select ::
  "(nat \<times> nat \<times> string) list \<Rightarrow> (nat \<times> nat) list \<Rightarrow> DetectionResult list \<Rightarrow> DetectionResult list"
where
  "phone_select [] used_ranges results = results"
| "phone_select ((s, e, phone) # rest) used_ranges results =
     (if overlaps_used s e used_ranges then phone_select rest used_ranges results
      else phone_select rest (used_ranges @ [(s, e)])
             (results @ [\<lparr>pii_type = PHONE, original_value = phone, confidence = 1,
                           start_pos = int s, end_pos = int e\<rparr>]))"

definition phone_detect :: "string \<Rightarrow> string \<Rightarrow> DetectionResult list" where
  "phone_detect text field_name =
     sort_key start_pos (phone_select (sort_key phone_key (phone_all_matches text)) [] [])"

section \<open>Replacer (replacer.py)\<close>

text \<open>
  The generators of the \<open>Faker\<close> library are outside this repository. They are taken as a
  parameter: a record of functions that read the state \<open>'g\<close> of the generator and return
  the generated string with the next state. Nothing is assumed about what they return.
\<close>

record 'g Faker =
  fk_email :: "'g \<Rightarrow> string \<times> 'g"
  fk_phone_number :: "'g \<Rightarrow> string \<times> 'g"
  fk_first_name :: "'g \<Rightarrow> string \<times> 'g"
  fk_last_name :: "'g \<Rightarrow> string \<times> 'g"
  fk_name :: "'g \<Rightarrow> string \<times> 'g"
  fk_credit_card_number :: "'g \<Rightarrow> string \<times> 'g"

text \<open>The attributes \<open>_faker\<close>, \<open>_cache\<close>, \<open>_first_name_map\<close> and \<open>_last_name_map\<close>.\<close>

record 'g Replacer =
  faker :: 'g
  cache :: "string \<times> PIIType \<Rightarrow> string option"
  first_name_map :: "string \<Rightarrow> string option"
  last_name_map :: "string \<Rightarrow> string option"

definition new_replacer :: "'g \<Rightarrow> 'g Replacer" where
  "new_replacer g = \<lparr>faker = g, cache = Map.empty, first_name_map = Map.empty,
     last_name_map = Map.empty\<rparr>"

definition preserve_case :: "string \<Rightarrow> string \<Rightarrow> string" where
  "preserve_case original fake =
     (if isupper original then str_upper fake
      else if islower original then str_lower fake
      else fake)"

definition generate_email :: "'g Faker \<Rightarrow> 'g Replacer \<Rightarrow> string \<times> 'g Replacer" where
  "generate_email F s = (case fk_email F (faker s) of (v, g) \<Rightarrow> (v, s\<lparr>faker := g\<rparr>))"

definition generate_credit_card :: "'g Faker \<Rightarrow> 'g Replacer \<Rightarrow> string \<times> 'g Replacer" where
  "generate_credit_card F s =
     (case fk_credit_card_number F (faker s) of (v, g) \<Rightarrow> (v, s\<lparr>faker := g\<rparr>))"

text \<open>\<open>re.sub(r"\D", "", fake_phone)\<close> keeps the digits.\<close>

definition generate_phone :: "'g Faker \<Rightarrow> string \<Rightarrow> 'g Replacer \<Rightarrow> string \<times> 'g Replacer" where
  "generate_phone F original s =
     (case fk_phone_number F (faker s) of (fake_phone, g) \<Rightarrow>
        let s' = s\<lparr>faker := g\<rparr>;
            digits = filter is_digit fake_phone
        in if CHR ''+'' \<in> set original \<and> CHR ''-'' \<in> set original then (fake_phone, s')
           else if CHR ''('' \<in> set original \<and> CHR '')'' \<in> set original then
             (if length digits \<ge> 10
              then (''('' @ slice digits 0 3 @ '') '' @ slice digits 3 6 @ ''-'' @ slice digits 6 10, s')
              else (fake_phone, s'))
           else if CHR ''-'' \<in> set original then
             (if length digits \<ge> 10
              then (slice digits 0 3 @ ''-'' @ slice digits 3 6 @ ''-'' @ slice digits 6 10, s')
              else (fake_phone, s'))
           else if isdigit original then (slice digits 0 (length original), s')
           else (fake_phone, s'))"

definition generate_first_name ::
  "'g Faker \<Rightarrow> string \<Rightarrow> 'g Replacer \<Rightarrow> string \<times> 'g Replacer" where
  "generate_first_name F original s =
     (let normalized = str_lower original;
          s1 = (if first_name_map s normalized = None
                then (case fk_first_name F (faker s) of (v, g) \<Rightarrow>
                        s\<lparr>faker := g, first_name_map := (first_name_map s)(normalized \<mapsto> v)\<rparr>)
                else s);
          fake_name = the (first_name_map s1 normalized)
      in (preserve_case original fake_name, s1))"

definition generate_last_name ::
  "'g Faker \<Rightarrow> string \<Rightarrow> 'g Replacer \<Rightarrow> string \<times> 'g Replacer" where
  "generate_last_name F original s =
     (let normalized = str_lower original;
          s1 = (if last_name_map s normalized = None
                then (case fk_last_name F (faker s) of (v, g) \<Rightarrow>
                        s\<lparr>faker := g, last_name_map := (last_name_map s)(normalized \<mapsto> v)\<rparr>)
                else s);
          fake_name = the (last_name_map s1 normalized)
      in (preserve_case original fake_name, s1))"

text \<open>\<open>_generate_full_name\<close>, branch by branch. With two words or more the first word keys
  the first-name map and the last word the last-name map.\<close>

definition generate_full_name ::
  "'g Faker \<Rightarrow> string \<Rightarrow> 'g Replacer \<Rightarrow> string \<times> 'g Replacer" where
  "generate_full_name F original s =
     (let words = split original
      in if length words \<ge> 2 then
           (let first_normalized = str_lower (hd words);
                last_normalized = str_lower (last words);
                has_first = (first_name_map s first_normalized \<noteq> None);
                has_last = (last_name_map s last_normalized \<noteq> None)
            in if has_first \<and> has_last then
                 (let fake_first = the (first_name_map s first_normalized);
                      fake_last = the (last_name_map s last_normalized)
                  in (preserve_case original (fake_first @ '' '' @ fake_last), s))
               else if has_first \<and> \<not> has_last then
                 (case fk_last_name F (faker s) of (v, g) \<Rightarrow>
                    let fake_first = the (first_name_map s first_normalized);
                        s1 = s\<lparr>faker := g, last_name_map := (last_name_map s)(last_normalized \<mapsto> v)\<rparr>;
                        fake_last = the (last_name_map s1 last_normalized)
                    in (preserve_case original (fake_first @ '' '' @ fake_last), s1))
               else if has_last \<and> \<not> has_first then
                 (case fk_first_name F (faker s) of (v, g) \<Rightarrow>
                    let s1 = s\<lparr>faker := g, first_name_map := (first_name_map s)(first_normalized \<mapsto> v)\<rparr>;
                        fake_first = the (first_name_map s1 first_normalized);
                        fake_last = the (last_name_map s1 last_normalized)
                    in (preserve_case original (fake_first @ '' '' @ fake_last), s1))
               else
                 (case fk_first_name F (faker s) of (v, g) \<Rightarrow>
                  case fk_last_name F g of (w, g') \<Rightarrow>
                    let s1 = s\<lparr>faker := g', first_name_map := (first_name_map s)(first_normalized \<mapsto> v),
                               last_name_map := (last_name_map s)(last_normalized \<mapsto> w)\<rparr>;
                        fake_first = the (first_name_map s1 first_normalized);
                        fake_last = the (last_name_map s1 last_normalized)
                    in (preserve_case original (fake_first @ '' '' @ fake_last), s1)))
         else
           (case fk_name F (faker s) of (fake_name, g) \<Rightarrow>
              (preserve_case original fake_name, s\<lparr>faker := g\<rparr>)))"

text \<open>The dispatch of \<open>get_or_create_replacement\<close>. \<open>PIIType\<close> is a closed enumeration, so
  the fallback \<open>"[REDACTED]"\<close> of the source has no member left to apply to.\<close>

definition generate :: "'g Faker \<Rightarrow> string \<Rightarrow> PIIType \<Rightarrow> 'g Replacer \<Rightarrow> string \<times> 'g Replacer" where
  "generate F original t s =
     (case t of
        EMAIL \<Rightarrow> generate_email F s
      | PHONE \<Rightarrow> generate_phone F original s
      | FULL_NAME \<Rightarrow> generate_full_name F original s
      | FIRST_NAME \<Rightarrow> generate_first_name F original s
      | LAST_NAME \<Rightarrow> generate_last_name F original s
      | CREDIT_CARD \<Rightarrow> generate_credit_card F s)"

definition get_or_create_replacement ::
  "'g Faker \<Rightarrow> string \<Rightarrow> PIIType \<Rightarrow> 'g Replacer \<Rightarrow> string \<times> 'g Replacer" where
  "get_or_create_replacement F original t s =
     (case cache s (original, t) of
        Some v \<Rightarrow> (v, s)
      | None \<Rightarrow>
          (case generate F original t s of (fake_value, s') \<Rightarrow>
             (fake_value, s'\<lparr>cache := (cache s')((original, t) \<mapsto> fake_value)\<rparr>)))"

definition replace :: "'g Faker \<Rightarrow> DetectionResult \<Rightarrow> 'g Replacer \<Rightarrow> string \<times> 'g Replacer" where
  "replace F detection s =
     get_or_create_replacement F (original_value detection) (pii_type detection) s"

text \<open>Any sequence of later calls on the same instance.\<close>

fun replace_all :: "'g Faker \<Rightarrow> (string \<times> PIIType) list \<Rightarrow> 'g Replacer \<Rightarrow> 'g Replacer" where
  "replace_all F [] s = s"
| "replace_all F ((v, t) # calls) s = replace_all F calls (snd (get_or_create_replacement F v t s))"

section \<open>Sanitizer (sanitizer.py)\<close>

text \<open>A detector is its method \<open>detect(text, field_name)\<close>. The name detector rests on an
  external recogniser, so the list of detectors is a parameter of the walker.\<close>

type_synonym detector = "string \<Rightarrow> string \<Rightarrow> DetectionResult list"

text \<open>What \<open>json.load\<close> returns. A Python \<open>dict\<close> keeps its keys in insertion order and
  holds each key once: an object is an association list, written through \<open>dict_set\<close>.\<close>

datatype json =
    JNull
  | JBool bool
  | JInt int
  | JFloat real
  | JStr string
  | JArr "json list"
  | JObj "(string \<times> json) list"

text \<open>\<open>d[key] = value\<close>: a key already present keeps its place, a new key goes last.\<close>

fun dict_set :: "(string \<times> 'v) list \<Rightarrow> string \<Rightarrow> 'v \<Rightarrow> (string \<times> 'v) list" where
  "dict_set [] key v = [(key, v)]"
| "dict_set ((k, w) # rest) key v =
     (if k = key then (k, v) # rest else (k, w) # dict_set rest key v)"

text \<open>The attributes \<open>_replacer\<close>, \<open>_pii_fields_detected\<close> and \<open>_pii_replacements_made\<close>.\<close>

record 'g Sanitizer =
  replacer :: "'g Replacer"
  pii_fields_detected_ctr :: nat
  pii_replacements_made_ctr :: nat

text \<open>The body of the replacement loop of \<open>_sanitize_string\<close> for one detection.\<close>

definition splice_in :: "DetectionResult \<Rightarrow> string \<Rightarrow> string \<Rightarrow> string" where
  "splice_in detection fake_value sanitized_text =
     (if start_pos detection \<ge> 0 \<and> end_pos detection > start_pos detection
      then take (nat (start_pos detection)) sanitized_text @ fake_value
             @ drop (nat (end_pos detection)) sanitized_text
      else replace_first (original_value detection) fake_value sanitized_text)"

fun replace_detections ::
  "'g Faker \<Rightarrow> DetectionResult list \<Rightarrow> string \<Rightarrow> 'g Sanitizer \<Rightarrow> string \<times> 'g Sanitizer" where
  "replace_detections F [] sanitized_text st = (sanitized_text, st)"
| "replace_detections F (detection # rest) sanitized_text st =
     (case replace F detection (replacer st) of (fake_value, r) \<Rightarrow>
        replace_detections F rest (splice_in detection fake_value sanitized_text)
          (st\<lparr>replacer := r, pii_replacements_made_ctr := pii_replacements_made_ctr st + 1\<rparr>))"

text \<open>\<open>all_detections.sort(key=lambda d: d.start_pos, reverse=True)\<close>: descending and
  stable, detections with the same start keep their order.\<close>

definition sort_descending :: "DetectionResult list \<Rightarrow> DetectionResult list" where
  "sort_descending ds = sort_key (\<lambda>d. - start_pos d) ds"

definition sanitize_string ::
  "detector list \<Rightarrow> 'g Faker \<Rightarrow> string \<Rightarrow> string \<Rightarrow> 'g Sanitizer \<Rightarrow> string \<times> 'g Sanitizer" where
  "sanitize_string D F text field_name st =
     (let all_detections = concat (map (\<lambda>detect. detect text field_name) D)
      in if all_detections = [] then (text, st)
         else replace_detections F (sort_descending all_detections) text
                (st\<lparr>pii_fields_detected_ctr := pii_fields_detected_ctr st + 1\<rparr>))"

text \<open>\<open>sanitize_value\<close> with its two loops: over the elements of a list, which share the
  field name, and over the items of a dict, each under its own key.\<close>

function sanitize_value ::
    "detector list \<Rightarrow> 'g Faker \<Rightarrow> json \<Rightarrow> string \<Rightarrow> 'g Sanitizer \<Rightarrow> json \<times> 'g Sanitizer"
  and sanitize_items ::
    "detector list \<Rightarrow> 'g Faker \<Rightarrow> json list \<Rightarrow> string \<Rightarrow> 'g Sanitizer \<Rightarrow> json list \<times> 'g Sanitizer"
  and sanitize_dict ::
    "detector list \<Rightarrow> 'g Faker \<Rightarrow> (string \<times> json) list \<Rightarrow> (string \<times> json) list \<Rightarrow> 'g Sanitizer
       \<Rightarrow> (string \<times> json) list \<times> 'g Sanitizer"
where
  "sanitize_value D F (JStr text) field_name st =
     (case sanitize_string D F text field_name st of (t, st') \<Rightarrow> (JStr t, st'))"
| "sanitize_value D F (JObj entries) field_name st =
     (case sanitize_dict D F entries [] st of (d, st') \<Rightarrow> (JObj d, st'))"
| "sanitize_value D F (JArr items) field_name st =
     (case sanitize_items D F items field_name st of (xs, st') \<Rightarrow> (JArr xs, st'))"
| "sanitize_value D F JNull field_name st = (JNull, st)"
| "sanitize_value D F (JBool b) field_name st = (JBool b, st)"
| "sanitize_value D F (JInt n) field_name st = (JInt n, st)"
| "sanitize_value D F (JFloat x) field_name st = (JFloat x, st)"
| "sanitize_items D F [] field_name st = ([], st)"
| "sanitize_items D F (item # items) field_name st =
     (case sanitize_value D F item field_name st of (x, st1) \<Rightarrow>
      case sanitize_items D F items field_name st1 of (xs, st2) \<Rightarrow> (x # xs, st2))"
| "sanitize_dict D F [] sanitized_dict st = (sanitized_dict, st)"
| "sanitize_dict D F ((key, nested_value) # rest) sanitized_dict st =
     (case sanitize_value D F nested_value key st of (x, st1) \<Rightarrow>
        sanitize_dict D F rest (dict_set sanitized_dict key x) st1)"
  by pat_completeness auto
termination
  by (relation "measure (\<lambda>x. case x of
          Inl (D, F, v, field_name, st) \<Rightarrow> size v
        | Inr (Inl (D, F, items, field_name, st)) \<Rightarrow> size_list size items
        | Inr (Inr (D, F, entries, acc, st)) \<Rightarrow> size_list (size_prod (\<lambda>x. 0) size) entries)") auto

text \<open>Exceptions, each with the text that \<open>str(e)\<close> gives.\<close>

datatype exn =
    FileNotFoundError string
  | JSONParseError string
  | InvalidOutputPathError string
  | AttributeError string
  | OtherException string

fun exn_str :: "exn \<Rightarrow> string" where
  "exn_str (FileNotFoundError m) = m"
| "exn_str (JSONParseError m) = m"
| "exn_str (InvalidOutputPathError m) = m"
| "exn_str (AttributeError m) = m"
| "exn_str (OtherException m) = m"

text \<open>The constructor of \<open>JSONParseError\<close> in exceptions.py appends the position.\<close>

definition mk_JSONParseError :: "string \<Rightarrow> nat \<Rightarrow> nat \<Rightarrow> exn" where
  "mk_JSONParseError message line column =
     JSONParseError (message @ '' at line '' @ str_of_nat line @ '', column '' @ str_of_nat column)"

fun type_name :: "json \<Rightarrow> string" where
  "type_name JNull = ''NoneType''"
| "type_name (JBool b) = ''bool''"
| "type_name (JInt n) = ''int''"
| "type_name (JFloat x) = ''float''"
| "type_name (JStr s) = ''str''"
| "type_name (JArr xs) = ''list''"
| "type_name (JObj fs) = ''dict''"

text \<open>\<open>sanitize_records\<close>: \<open>record.items()\<close> raises \<open>AttributeError\<close> on an element of the
  array that is not an object; the records before it have been walked by then.\<close>

fun sanitize_records ::
  "detector list \<Rightarrow> 'g Faker \<Rightarrow> json list \<Rightarrow> 'g Sanitizer \<Rightarrow> (exn + json list) \<times> 'g Sanitizer" where
  "sanitize_records D F [] st = (Inr [], st)"
| "sanitize_records D F (rcd # records) st =
     (case rcd of
        JObj entries \<Rightarrow>
          (case sanitize_dict D F entries [] st of (sanitized_record, st1) \<Rightarrow>
           case sanitize_records D F records st1 of
             (Inl e, st2) \<Rightarrow> (Inl e, st2)
           | (Inr sanitized_records, st2) \<Rightarrow> (Inr (JObj sanitized_record # sanitized_records), st2))
      | _ \<Rightarrow> (Inl (AttributeError ([CHR 0x27] @ type_name rcd
                     @ [CHR 0x27] @ '' object has no attribute '' @ [CHR 0x27] @ ''items'' @ [CHR 0x27])), st))"

subsection \<open>Files\<close>

text \<open>
  The file system and \<open>json\<close> are outside the program; the record \<open>io\<close> says how they
  answer. \<open>input\<close> is what reading a path meets, in the order in which \<open>_read_json_file\<close>
  asks. Writing goes through \<open>mkdir\<close>, \<open>open(output_path, "w")\<close> and \<open>json.dump\<close>; each can
  raise. \<open>open\<close> creates the file or empties it; \<open>json.dump\<close> that raises leaves in it the
  characters of the rendering written so far. \<open>disk\<close> holds the files written.
\<close>

datatype read_state =
    Absent
  | NotRegular
  | Denied
  | Unreadable string
  | Undecodable string nat nat
  | Parsed json

datatype write_fault = PermissionFault | OSFault string | OtherFault string

record io =
  input :: "string \<Rightarrow> read_state"
  mkdir_fault :: "string \<Rightarrow> write_fault option"
  open_fault :: "string \<Rightarrow> write_fault option"
  dump_fault :: "string \<Rightarrow> (write_fault \<times> nat) option"
  dumps :: "json list \<Rightarrow> string"
  disk :: "string \<Rightarrow> string option"

definition read_json_file :: "io \<Rightarrow> string \<Rightarrow> exn + json list" where
  "read_json_file w input_path =
     (case input w input_path of
        Absent \<Rightarrow> Inl (FileNotFoundError (''Input file not found: '' @ input_path))
      | NotRegular \<Rightarrow> Inl (FileNotFoundError (''Input path is not a file: '' @ input_path))
      | Denied \<Rightarrow> Inl (FileNotFoundError (''Permission denied reading file: '' @ input_path))
      | Unreadable m \<Rightarrow> Inl (FileNotFoundError (''Error reading file: '' @ m))
      | Undecodable m lineno colno \<Rightarrow> Inl (mk_JSONParseError (''Invalid JSON: '' @ m) lineno colno)
      | Parsed (JArr data) \<Rightarrow> Inr data
      | Parsed _ \<Rightarrow>
          Inl (FileNotFoundError (''Error reading file: ''
                 @ exn_str (mk_JSONParseError ''JSON root must be an array'' 1 1))))"

definition wrap_write_fault :: "write_fault \<Rightarrow> string \<Rightarrow> exn" where
  "wrap_write_fault f output_path =
     (case f of
        PermissionFault \<Rightarrow> InvalidOutputPathError (''Permission denied writing to: '' @ output_path)
      | OSFault m \<Rightarrow> InvalidOutputPathError (''Error writing output file: '' @ m)
      | OtherFault m \<Rightarrow> InvalidOutputPathError (''Unexpected error writing output: '' @ m))"

definition write_json_file :: "io \<Rightarrow> string \<Rightarrow> json list \<Rightarrow> exn option \<times> io" where
  "write_json_file w output_path data =
     (case mkdir_fault w output_path of
        Some f \<Rightarrow> (Some (wrap_write_fault f output_path), w)
      | None \<Rightarrow>
     (case open_fault w output_path of
        Some f \<Rightarrow> (Some (wrap_write_fault f output_path), w)
      | None \<Rightarrow>
     (case dump_fault w output_path of
        Some (f, n) \<Rightarrow> (Some (wrap_write_fault f output_path),
                        w\<lparr>disk := (disk w)(output_path \<mapsto> take n (dumps w data))\<rparr>)
      | None \<Rightarrow> (None, w\<lparr>disk := (disk w)(output_path \<mapsto> dumps w data)\<rparr>))))"

definition failure :: "string \<Rightarrow> SanitizationResult" where
  "failure m = \<lparr>success = False, records_processed = 0, pii_fields_detected = 0,
     pii_replacements_made = 0, error_message = Some m\<rparr>"

text \<open>\<open>sanitize_file\<close>: the three custom exceptions give their own text, any other one the
  text after \<open>Unexpected error during sanitization\<close>.\<close>

definition handle :: "exn \<Rightarrow> SanitizationResult" where
  "handle e =
     (case e of
        FileNotFoundError m \<Rightarrow> failure m
      | JSONParseError m \<Rightarrow> failure m
      | InvalidOutputPathError m \<Rightarrow> failure m
      | _ \<Rightarrow> failure (''Unexpected error during sanitization: '' @ exn_str e))"

definition sanitize_file ::
  "detector list \<Rightarrow> 'g Faker \<Rightarrow> io \<Rightarrow> string \<Rightarrow> string \<Rightarrow> 'g Sanitizer
     \<Rightarrow> SanitizationResult \<times> io \<times> 'g Sanitizer" where
  "sanitize_file D F w input_path output_path st =
     (let st0 = st\<lparr>pii_fields_detected_ctr := 0, pii_replacements_made_ctr := 0\<rparr>
      in case read_json_file w input_path of
           Inl e \<Rightarrow> (handle e, w, st0)
         | Inr records \<Rightarrow>
             (case sanitize_records D F records st0 of
                (Inl e, st1) \<Rightarrow> (handle e, w, st1)
              | (Inr sanitized_records, st1) \<Rightarrow>
                  (case write_json_file w output_path sanitized_records of
                     (Some e, w') \<Rightarrow> (handle e, w', st1)
                   | (None, w') \<Rightarrow>
                       (\<lparr>success = True, records_processed = length records,
                         pii_fields_detected = pii_fields_detected_ctr st1,
                         pii_replacements_made = pii_replacements_made_ctr st1,
                         error_message = None\<rparr>, w', st1))))"

section \<open>A generator for worked examples\<close>

text \<open>A \<open>Faker\<close> whose state counts the calls made so far.\<close>

definition pick :: "string list \<Rightarrow> nat \<Rightarrow> string" where
  "pick xs n = xs ! (n mod length xs)"

definition demo_faker :: "nat Faker" where
  "demo_faker =
     \<lparr>fk_email = (\<lambda>n. (''user'' @ str_of_nat n @ ''@example.org'', Suc n)),
      fk_phone_number = (\<lambda>n. (''202-555-01'' @ str_of_nat (10 + n mod 90), Suc n)),
      fk_first_name = (\<lambda>n. (pick [''Michael'', ''Sarah'', ''David''] n, Suc n)),
      fk_last_name = (\<lambda>n. (pick [''Jones'', ''Brown'', ''Miller''] n, Suc n)),
      fk_name = (\<lambda>n. (pick [''Michael Jones'', ''Sarah Brown''] n, Suc n)),
      fk_credit_card_number = (\<lambda>n. (''4532015112830366'', Suc n))\<rparr>"

text \<open>The same generator, except that the phone number it draws is \<open>555-123-4567\<close>.\<close>

definition repeating_faker :: "nat Faker" where
  "repeating_faker = demo_faker\<lparr>fk_phone_number := (\<lambda>n. (''555-123-4567'', Suc n))\<rparr>"

definition new_sanitizer :: "'g \<Rightarrow> 'g Sanitizer" where
  "new_sanitizer g = \<lparr>replacer = new_replacer g, pii_fields_detected_ctr = 0,
     pii_replacements_made_ctr = 0\<rparr>"

section \<open>Properties stated by the specification\<close>

text \<open>The least number of characters a match of a pattern consumes.\<close>

fun min_width :: "regex \<Rightarrow> nat" where
  "min_width (Rep p lo hi) = lo"
| "min_width WordBoundary = 0"
| "min_width (Cat r s) = min_width r + min_width s"
| "min_width (Alt r s) = min (min_width r) (min_width s)"

text \<open>The characters that a match of a pattern can consume.\<close>

fun consumes :: "regex \<Rightarrow> char \<Rightarrow> bool" where
  "consumes (Rep p lo hi) c = p c"
| "consumes WordBoundary c = False"
| "consumes (Cat r s) c = (consumes r c \<or> consumes s c)"
| "consumes (Alt r s) c = (consumes r c \<or> consumes s c)"

text \<open>The span of a detection lies inside the text scanned, is not empty, and the value
  reported is the text under the span.\<close>

definition span_in :: "string \<Rightarrow> DetectionResult \<Rightarrow> bool" where
  "span_in text d =
     (0 \<le> start_pos d \<and> start_pos d < end_pos d \<and> end_pos d \<le> int (length text)
      \<and> original_value d = slice text (nat (start_pos d)) (nat (end_pos d)))"

text \<open>Two detections whose spans do not overlap.\<close>

definition apart :: "DetectionResult \<Rightarrow> DetectionResult \<Rightarrow> bool" where
  "apart a b = (end_pos a \<le> start_pos b \<or> end_pos b \<le> start_pos a)"

text \<open>The detection that the selection loop of the phone detector builds from a match.\<close>

definition phone_result :: "nat \<times> nat \<times> string \<Rightarrow> DetectionResult" where
  "phone_result m = (case m of (s, e, phone) \<Rightarrow>
     \<lparr>pii_type = PHONE, original_value = phone, confidence = 1, start_pos = int s,
      end_pos = int e\<rparr>)"

text \<open>The order of the specification, \<open>(start_pos, -(length))\<close>, on detections.\<close>

definition det_key :: "DetectionResult \<Rightarrow> int \<times> int" where
  "det_key d = (start_pos d, - (end_pos d - start_pos d))"

text \<open>The two accumulators of the selection loop move together.\<close>

definition in_step :: "(nat \<times> nat) list \<Rightarrow> DetectionResult list \<Rightarrow> bool" where
  "in_step used results = (map (\<lambda>(s, e). (int s, int e)) used = map (\<lambda>d. (start_pos d, end_pos d)) results)"

text \<open>The number of digits of a match, as the detector counts them, and the pool in the
  words of the specification: the matches of the four patterns, pattern after pattern, whose
  digit count is 10 to 15.\<close>

definition digit_count :: "string \<Rightarrow> nat" where
  "digit_count phone = length (filter isdigit_char phone)"

definition surviving :: "string \<Rightarrow> (nat \<times> nat \<times> string) list" where
  "surviving text =
     concat (map (\<lambda>pattern.
        map (\<lambda>(s, e). (s, e, slice text s e))
          (filter (\<lambda>(s, e). 10 \<le> digit_count (slice text s e) \<and> digit_count (slice text s e) \<le> 15)
             (finditer pattern text 0)))
        PHONE_PATTERNS)"

text \<open>The Luhn checksum in the words of the specification: reverse the digit string,
  double every digit at an odd index, subtract 9 from a doubled value above 9, sum all
  digits, accept when the sum is a multiple of 10.\<close>

definition luhn_digit :: "nat \<times> char \<Rightarrow> int" where
  "luhn_digit p = (case p of (i, c) \<Rightarrow>
     if odd i then (if digit_value c * 2 > 9 then digit_value c * 2 - 9 else digit_value c * 2)
     else digit_value c)"

definition luhn_valid :: "string \<Rightarrow> bool" where
  "luhn_valid s = (sum_list (map luhn_digit (enumerate 0 (rev s))) mod 10 = 0)"

text \<open>
  The three-way case rule of the specification, relating an original, the fake as
  generated and the string returned: an entirely uppercase original gives the fake in
  uppercase, an entirely lowercase one the fake in lowercase, any other original the fake
  unchanged. The fake in uppercase is entirely uppercase, and the fake in lowercase entirely
  lowercase, when the fake has a cased character; the ordinal indicators \<open>0xAA\<close> and
  \<open>0xBA\<close> are lowercase characters that \<open>str.upper\<close> leaves alone, so the first of the
  two is said of the fakes without them.
\<close>

definition is_cased :: "char \<Rightarrow> bool" where
  "is_cased c = (is_upper_char c \<or> is_lower_char c)"

definition case_follows :: "string \<Rightarrow> string \<Rightarrow> string \<Rightarrow> bool" where
  "case_follows original fake result =
     (if isupper original
      then upper_in_range fake \<longrightarrow>
             result = str_upper fake
             \<and> (list_ex is_cased fake \<and> CHR 0xAA \<notin> set fake \<and> CHR 0xBA \<notin> set fake
                  \<longrightarrow> isupper result)
      else if islower original
      then result = str_lower fake \<and> (list_ex is_cased fake \<longrightarrow> islower result)
      else result = fake)"

text \<open>A name of one word: not empty and free of whitespace.\<close>

definition one_word :: "string \<Rightarrow> bool" where
  "one_word w = (w \<noteq> [] \<and> \<not> list_ex is_space w)"

datatype case_pattern = Uppercase | Lowercase | Neither

definition case_pattern_of :: "string \<Rightarrow> case_pattern" where
  "case_pattern_of s = (if isupper s then Uppercase else if islower s then Lowercase else Neither)"

text \<open>What the primary cache holds for names agrees with the shared first-name and
  last-name maps. This holds of a new Replacer and every call keeps it.\<close>

definition names_linked :: "'g Replacer \<Rightarrow> bool" where
  "names_linked s =
     (\<forall>original v.
        (cache s (original, FIRST_NAME) = Some v \<longrightarrow>
           (\<exists>f. first_name_map s (str_lower original) = Some f \<and> v = preserve_case original f))
      \<and> (cache s (original, LAST_NAME) = Some v \<longrightarrow>
           (\<exists>l. last_name_map s (str_lower original) = Some l \<and> v = preserve_case original l))
      \<and> (cache s (original, FULL_NAME) = Some v \<longrightarrow> 2 \<le> length (split original) \<longrightarrow>
           (\<exists>f l. first_name_map s (str_lower (hd (split original))) = Some f
                \<and> last_name_map s (str_lower (last (split original))) = Some l
                \<and> v = preserve_case original (f @ '' '' @ l))))"

text \<open>The scenario of the cross-field property: a first name and a last name are replaced
  on their own, in either order, then the full name made of both.\<close>

definition standalone_then_full ::
  "'g Faker \<Rightarrow> string \<Rightarrow> string \<Rightarrow> 'g Replacer \<Rightarrow> string \<times> string \<times> string \<times> 'g Replacer" where
  "standalone_then_full F a b s0 =
     (case get_or_create_replacement F a FIRST_NAME s0 of (r1, s1) \<Rightarrow>
      case get_or_create_replacement F b LAST_NAME s1 of (r2, s2) \<Rightarrow>
      case get_or_create_replacement F (a @ '' '' @ b) FULL_NAME s2 of (r3, s3) \<Rightarrow>
        (r1, r2, r3, s3))"

definition last_first_then_full ::
  "'g Faker \<Rightarrow> string \<Rightarrow> string \<Rightarrow> 'g Replacer \<Rightarrow> string \<times> string \<times> string \<times> 'g Replacer" where
  "last_first_then_full F a b s0 =
     (case get_or_create_replacement F b LAST_NAME s0 of (r2, s1) \<Rightarrow>
      case get_or_create_replacement F a FIRST_NAME s1 of (r1, s2) \<Rightarrow>
      case get_or_create_replacement F (a @ '' '' @ b) FULL_NAME s2 of (r3, s3) \<Rightarrow>
        (r1, r2, r3, s3))"

text \<open>The three replacements come from one fake first name and one fake last name held
  in the shared maps, each by the case rule.\<close>

definition linked :: "string \<Rightarrow> string \<Rightarrow> string \<times> string \<times> string \<times> 'g Replacer \<Rightarrow> bool" where
  "linked a b x =
     (case x of (r1, r2, r3, s3) \<Rightarrow>
        \<exists>f l. first_name_map s3 (str_lower a) = Some f
             \<and> last_name_map s3 (str_lower b) = Some l
             \<and> case_follows a f r1 \<and> case_follows b l r2
             \<and> case_follows (a @ '' '' @ b) (f @ '' '' @ l) r3)"

definition joined :: "string \<times> string \<times> string \<times> 'g Replacer \<Rightarrow> bool" where
  "joined x = (case x of (r1, r2, r3, s3) \<Rightarrow> r3 = r1 @ '' '' @ r2)"

text \<open>A value with no string leaf, and a value each of whose objects holds each key once
  (as every Python \<open>dict\<close> does).\<close>

fun string_free :: "json \<Rightarrow> bool" where
  "string_free (JStr s) = False"
| "string_free (JArr items) = (\<forall>x \<in> set items. string_free x)"
| "string_free (JObj entries) = (\<forall>e \<in> set entries. string_free (snd e))"
| "string_free v = True"

fun unique_keys :: "json \<Rightarrow> bool" where
  "unique_keys (JArr items) = (\<forall>x \<in> set items. unique_keys x)"
| "unique_keys (JObj entries) =
     (distinct (map fst entries) \<and> (\<forall>e \<in> set entries. unique_keys (snd e)))"
| "unique_keys v = True"

definition is_object :: "json \<Rightarrow> bool" where
  "is_object v = (case v of JObj entries \<Rightarrow> True | _ \<Rightarrow> False)"

text \<open>The multi-type example of the specification and its two detections.\<close>

definition example_text :: string where
  "example_text = ''Contact john@example.com or 555-123-4567''"

definition example_email :: DetectionResult where
  "example_email = \<lparr>pii_type = EMAIL, original_value = ''john@example.com'', confidence = 1,
     start_pos = 8, end_pos = 24\<rparr>"

definition example_phone :: DetectionResult where
  "example_phone = \<lparr>pii_type = PHONE, original_value = ''555-123-4567'', confidence = 1,
     start_pos = 28, end_pos = 40\<rparr>"

text \<open>The replacements of a list of detections, asked of the Replacer in the order of the
  list.\<close>

fun replacements ::
  "'g Faker \<Rightarrow> DetectionResult list \<Rightarrow> 'g Replacer \<Rightarrow> string list \<times> 'g Replacer" where
  "replacements F [] r = ([], r)"
| "replacements F (d # ds) r =
     (case replace F d r of (v, r1) \<Rightarrow>
      case replacements F ds r1 of (vs, r2) \<Rightarrow> (v # vs, r2))"

text \<open>A text rebuilt from left to right, from position \<open>pos\<close> on: between the spans the
  text is kept, in the place of each span stands its replacement. The detections come with
  their replacements, in the order of their spans.\<close>

fun rebuilt :: "string \<Rightarrow> nat \<Rightarrow> (DetectionResult \<times> string) list \<Rightarrow> string" where
  "rebuilt text pos [] = drop pos text"
| "rebuilt text pos ((d, v) # rest) =
     slice text pos (nat (start_pos d)) @ v @ rebuilt text (nat (end_pos d)) rest"

text \<open>A result that reports a failed run: no success, every counter zero, and an error
  message that is not empty.\<close>

definition reports_failure :: "SanitizationResult \<Rightarrow> bool" where
  "reports_failure res =
     (\<not> success res \<and> records_processed res = 0 \<and> pii_fields_detected res = 0
      \<and> pii_replacements_made res = 0
      \<and> (case error_message res of None \<Rightarrow> False | Some m \<Rightarrow> m \<noteq> []))"

text \<open>A world for the examples: \<open>in.json\<close> holds \<open>[{"id": 7}]\<close>, whose rendering by
  \<open>json.dump(data, f, indent=2)\<close> is \<open>demo_rendering\<close>; the disk fills up after five
  characters of \<open>out.json\<close> have been written; \<open>broken.json\<close> holds \<open>{invalid\<close>,
  \<open>object.json\<close> holds a JSON object and \<open>numbers.json\<close> the array \<open>[1]\<close>.\<close>

definition demo_rendering :: string where
  "demo_rendering = ''['' @ [CHR 0x0A] @ ''  {'' @ [CHR 0x0A] @ ''    \"id\": 7'' @ [CHR 0x0A]
     @ ''  }'' @ [CHR 0x0A] @ '']''"

definition demo_io :: io where
  "demo_io =
     \<lparr>input = (\<lambda>path.
        if path = ''in.json'' then Parsed (JArr [JObj [(''id'', JInt 7)]])
        else if path = ''broken.json''
          then Undecodable ''Expecting property name enclosed in double quotes'' 1 2
        else if path = ''object.json'' then Parsed (JObj [(''id'', JInt 7)])
        else if path = ''numbers.json'' then Parsed (JArr [JInt 1])
        else Absent),
      mkdir_fault = (\<lambda>path. None),
      open_fault = (\<lambda>path. if path = ''/proc/out.json'' then Some PermissionFault else None),
      dump_fault = (\<lambda>path. if path = ''out.json''
         then Some (OSFault ''[Errno 28] No space left on device'', 5) else None),
      dumps = (\<lambda>data. demo_rendering),
      disk = Map.empty\<rparr>"

section \<open>The consistency cache\<close>

lemma generate_cache: "cache (snd (generate F v t s)) = cache s"
  by (cases t)
     (auto simp: generate_def generate_email_def generate_phone_def generate_full_name_def
        generate_first_name_def generate_last_name_def generate_credit_card_def Let_def
        split: prod.splits)

lemma goc_hit: "cache s (v, t) = Some x \<Longrightarrow> get_or_create_replacement F v t s = (x, s)"
  by (simp add: get_or_create_replacement_def)

lemma goc_stores:
  "cache (snd (get_or_create_replacement F v t s)) (v, t)
     = Some (fst (get_or_create_replacement F v t s))"
  by (auto simp: get_or_create_replacement_def split: option.splits prod.splits)

lemma goc_keeps:
  assumes "cache s k = Some x"
  shows "cache (snd (get_or_create_replacement F v t s)) k = Some x"
proof (cases "cache s (v, t)")
  case None
  then have "k \<noteq> (v, t)" using assms by auto
  moreover have "cache (snd (generate F v t s)) k = Some x"
    using assms by (simp add: generate_cache)
  ultimately show ?thesis using None
    by (auto simp: get_or_create_replacement_def split: prod.splits)
next
  case (Some y)
  then show ?thesis using assms by (simp add: get_or_create_replacement_def)
qed

lemma replace_all_keeps:
  "cache s k = Some x \<Longrightarrow> cache (replace_all F calls s) k = Some x"
  by (induction calls arbitrary: s) (auto simp: goc_keeps)

text \<open>
  Claim C1. Let a call \<open>get_or_create_replacement(v, t)\<close> on a Replacer in any state return
  \<open>r\<close>. Then the cache holds \<open>r\<close> under \<open>(v, t)\<close>, and after any sequence of further calls
  on the same instance it still does: \<open>get_or_create_replacement(v, t)\<close> and \<open>replace\<close> on
  a detection carrying \<open>(v, t)\<close> return \<open>r\<close> again and leave the state alone. No entry that
  the cache held before is changed by any of these calls.
\<close>

theorem cache_idempotent:
  assumes "get_or_create_replacement F v t s = (r, s1)"
  shows "cache s1 (v, t) = Some r
     \<and> cache (replace_all F calls s1) (v, t) = Some r
     \<and> get_or_create_replacement F v t (replace_all F calls s1) = (r, replace_all F calls s1)
     \<and> replace F \<lparr>pii_type = t, original_value = v, confidence = c, start_pos = a, end_pos = b\<rparr>
          (replace_all F calls s1) = (r, replace_all F calls s1)
     \<and> (\<forall>k x. cache s k = Some x \<longrightarrow> cache (replace_all F calls s1) k = Some x)"
proof -
  have stored: "cache s1 (v, t) = Some r"
    using goc_stores [of F v t s] assms by simp
  then have later: "cache (replace_all F calls s1) (v, t) = Some r"
    by (rule replace_all_keeps)
  have "\<And>k x. cache s k = Some x \<Longrightarrow> cache s1 k = Some x"
    using goc_keeps [of s _ _ F v t] assms by simp
  then have "\<forall>k x. cache s k = Some x \<longrightarrow> cache (replace_all F calls s1) k = Some x"
    by (simp add: replace_all_keeps)
  with stored later show ?thesis
    by (simp add: replace_def goc_hit)
qed

theorem cache_idempotent_witness:
  "get_or_create_replacement demo_faker ''john@example.com'' EMAIL
     (replace_all demo_faker [(''jane@test.org'', EMAIL), (''john@example.com'', EMAIL), (''John'', FIRST_NAME)]
        (snd (get_or_create_replacement demo_faker ''john@example.com'' EMAIL
           (snd (get_or_create_replacement demo_faker ''jane@test.org'' EMAIL (new_replacer 0))))))
   = (''user1@example.org'',
      replace_all demo_faker [(''jane@test.org'', EMAIL), (''john@example.com'', EMAIL), (''John'', FIRST_NAME)]
        (snd (get_or_create_replacement demo_faker ''john@example.com'' EMAIL
           (snd (get_or_create_replacement demo_faker ''jane@test.org'' EMAIL (new_replacer 0))))))
   \<and> cache (replace_all demo_faker [(''jane@test.org'', EMAIL), (''john@example.com'', EMAIL), (''John'', FIRST_NAME)]
        (snd (get_or_create_replacement demo_faker ''john@example.com'' EMAIL
           (snd (get_or_create_replacement demo_faker ''jane@test.org'' EMAIL (new_replacer 0))))))
        (''jane@test.org'', EMAIL) = Some ''user0@example.org''"
proof -
  let ?s = "snd (get_or_create_replacement demo_faker ''jane@test.org'' EMAIL (new_replacer 0))"
  have "fst (get_or_create_replacement demo_faker ''john@example.com'' EMAIL ?s) = ''user1@example.org''"
    by code_simp
  then have first: "get_or_create_replacement demo_faker ''john@example.com'' EMAIL ?s
      = (''user1@example.org'', snd (get_or_create_replacement demo_faker ''john@example.com'' EMAIL ?s))"
    by (simp add: prod_eq_iff)
  have before: "cache ?s (''jane@test.org'', EMAIL) = Some ''user0@example.org''"
    by code_simp
  show ?thesis using cache_idempotent [OF first] before by blast
qed

section \<open>Matches lie inside the text\<close>

lemma run_length_le: "run_length p b cs \<le> length cs"
  by (induction cs arbitrary: b) auto

lemma ends_bounds:
  "i \<le> length text \<Longrightarrow> e \<in> set (ends r text i) \<Longrightarrow> i + min_width r \<le> e \<and> e \<le> length text"
proof (induction r arbitrary: i e)
  case (Rep p lo hi)
  let ?k = "run_length p hi (drop i text)"
  from Rep.prems(2) have n: "i + lo \<le> e \<and> e \<le> i + ?k"
    by (auto simp: Let_def split: if_splits)
  have "?k \<le> length text - i" using run_length_le [of p hi "drop i text"] by simp
  with n Rep.prems(1) show ?case by (simp, linarith)
next
  case WordBoundary
  then show ?case by (auto split: if_splits)
next
  case (Cat r s)
  from Cat.prems(2) obtain m where m: "m \<in> set (ends r text i)" "e \<in> set (ends s text m)"
    by auto
  from Cat.IH(1) [OF Cat.prems(1) m(1)] have a: "i + min_width r \<le> m" "m \<le> length text" by auto
  from Cat.IH(2) [OF a(2) m(2)] have "m + min_width s \<le> e" "e \<le> length text" by auto
  with a show ?case by simp
next
  case (Alt r s)
  from Alt.prems(2) consider "e \<in> set (ends r text i)" | "e \<in> set (ends s text i)"
    by auto
  then show ?case
  proof cases
    case 1
    from Alt.IH(1) [OF Alt.prems(1) 1] show ?thesis by (simp add: min_def)
  next
    case 2
    from Alt.IH(2) [OF Alt.prems(1) 2] show ?thesis by (simp add: min_def)
  qed
qed

lemma finditer_bounds:
  "(s, e) \<in> set (finditer r tx i) \<Longrightarrow> i \<le> s \<and> s + min_width r \<le> e \<and> e \<le> length tx"
proof (induction r tx i rule: finditer.induct)
  case (1 r tx i)
  show ?case
  proof (cases "length tx < i")
    case True
    with "1.prems" show ?thesis by (simp add: finditer.simps [of r tx i])
  next
    case False
    note inside = this
    show ?thesis
    proof (cases "ends r tx i")
      case Nil
      with "1.prems" inside have "(s, e) \<in> set (finditer r tx (i + 1))"
        by (simp add: finditer.simps [of r tx i])
      from "1.IH"(1) [OF inside Nil this] show ?thesis by simp
    next
      case (Cons e0 rest)
      have e0: "i + min_width r \<le> e0 \<and> e0 \<le> length tx"
        using ends_bounds [of i tx e0 r] inside Cons by simp
      from "1.prems" inside Cons
      consider "(s, e) = (i, e0)" | "(s, e) \<in> set (finditer r tx (if i < e0 then e0 else i + 1))"
        by (auto simp add: finditer.simps [of r tx i])
      then show ?thesis
      proof cases
        case 1
        with e0 show ?thesis by simp
      next
        case 2
        from "1.IH"(2) [OF inside Cons 2] show ?thesis by (auto split: if_splits)
      qed
    qed
  qed
qed


lemma match_span_in:
  assumes "(s, e) \<in> set (finditer r tx 0)" and "0 < min_width r"
  shows "span_in tx \<lparr>pii_type = t, original_value = slice tx s e, confidence = c,
           start_pos = int s, end_pos = int e\<rparr>"
  using finditer_bounds [OF assms(1)] assms(2) by (simp add: span_in_def)

lemma min_width_EMAIL_PATTERN: "min_width EMAIL_PATTERN = 6"
  by (simp add: EMAIL_PATTERN_def Plus_def Lit_def)

lemma min_width_CARD_PATTERN: "min_width CARD_PATTERN = 15"
  by (simp add: CARD_PATTERN_def Digits_def Opt_def)

lemma min_width_PHONE_PATTERNS: "r \<in> set PHONE_PATTERNS \<Longrightarrow> 0 < min_width r"
  by (auto simp: PHONE_PATTERNS_def Digits_def Opt_def Lit_def)

lemma email_detect_span: "d \<in> set (email_detect tx field_name) \<Longrightarrow> span_in tx d"
  by (auto simp: email_detect_def min_width_EMAIL_PATTERN intro!: match_span_in)

lemma card_detect_span: "d \<in> set (card_detect tx field_name) \<Longrightarrow> span_in tx d"
  by (auto simp: card_detect_def Let_def min_width_CARD_PATTERN split: if_splits
      intro!: match_span_in)

text \<open>The detection built from one pooled match.\<close>

lemma phone_candidates_span:
  assumes "(s, e, phone) \<in> set (phone_candidates r tx)" and "0 < min_width r"
  shows "span_in tx (phone_result (s, e, phone))"
proof -
  from assms(1) have "(s, e) \<in> set (finditer r tx 0)" and "phone = slice tx s e"
    by (auto simp: phone_candidates_def Let_def split: if_splits)
  with assms(2) show ?thesis
    by (auto simp: phone_result_def intro!: match_span_in)
qed

lemma phone_all_matches_span:
  "m \<in> set (phone_all_matches tx) \<Longrightarrow> span_in tx (phone_result m)"
  by (cases m) (auto simp: phone_all_matches_def dest: min_width_PHONE_PATTERNS
      intro: phone_candidates_span)

lemma phone_select_subset:
  "set (phone_select ms used results) \<subseteq> set results \<union> phone_result ` set ms"
  by (induction ms used results rule: phone_select.induct)
     (auto simp: phone_result_def)

lemma phone_detect_subset:
  "set (phone_detect tx field_name) \<subseteq> phone_result ` set (phone_all_matches tx)"
  using phone_select_subset [of "sort_key phone_key (phone_all_matches tx)" "[]" "[]"]
  by (simp add: phone_detect_def)

lemma phone_detect_span: "d \<in> set (phone_detect tx field_name) \<Longrightarrow> span_in tx d"
  using phone_detect_subset [of tx field_name] phone_all_matches_span by blast

text \<open>
  Claim C10. For every text, each detection returned by the email, phone and credit card
  detectors has \<open>0 \<le> start_pos < end_pos \<le> len(text)\<close>, and its \<open>original_value\<close> is
  the slice \<open>text[start_pos:end_pos]\<close>.
\<close>

theorem detection_spans:
  "\<forall>d \<in> set (email_detect tx field_name) \<union> set (phone_detect tx field_name)
        \<union> set (card_detect tx field_name). span_in tx d"
  using email_detect_span phone_detect_span card_detect_span by blast

theorem detection_spans_witness:
  "span_in ''Contact john@example.com or 555-123-4567''
     \<lparr>pii_type = EMAIL, original_value = ''john@example.com'', confidence = 1,
      start_pos = 8, end_pos = 24\<rparr>
   \<and> span_in ''Contact john@example.com or 555-123-4567''
     \<lparr>pii_type = PHONE, original_value = ''555-123-4567'', confidence = 1,
      start_pos = 28, end_pos = 40\<rparr>
   \<and> span_in ''Card: 4532 0151-1283 0366''
     \<lparr>pii_type = CREDIT_CARD, original_value = ''4532 0151-1283 0366'', confidence = 1,
      start_pos = 6, end_pos = 25\<rparr>"
proof -
  have "email_detect ''Contact john@example.com or 555-123-4567'' ''''
      = [\<lparr>pii_type = EMAIL, original_value = ''john@example.com'', confidence = 1,
          start_pos = 8, end_pos = 24\<rparr>]"
    by code_simp
  moreover have "phone_detect ''Contact john@example.com or 555-123-4567'' ''''
      = [\<lparr>pii_type = PHONE, original_value = ''555-123-4567'', confidence = 1,
          start_pos = 28, end_pos = 40\<rparr>]"
    by code_simp
  moreover have "card_detect ''Card: 4532 0151-1283 0366'' ''''
      = [\<lparr>pii_type = CREDIT_CARD, original_value = ''4532 0151-1283 0366'', confidence = 1,
          start_pos = 6, end_pos = 25\<rparr>]"
    by code_simp
  ultimately show ?thesis
    using detection_spans [of "''Contact john@example.com or 555-123-4567''" "''''"]
      detection_spans [of "''Card: 4532 0151-1283 0366''" "''''"]
    by simp
qed

section \<open>Overlap resolution of the phone detector\<close>

lemma apart_sym: "apart a b \<Longrightarrow> apart b a"
  by (auto simp: apart_def)

lemma sorted_wrt_apart_insort:
  assumes "\<forall>y \<in> set xs. apart x y" and "sorted_wrt apart xs"
  shows "sorted_wrt apart (insort_key f x xs)"
  using assms by (induction xs) (auto simp: apart_sym set_insort_key)

lemma sorted_wrt_apart_sort:
  "sorted_wrt apart xs \<Longrightarrow> sorted_wrt apart (sort_key f xs)"
proof (induction xs)
  case Nil
  then show ?case by simp
next
  case (Cons x xs)
  then have "\<forall>y \<in> set (sort_key f xs). apart x y" and "sorted_wrt apart (sort_key f xs)"
    by auto
  then show ?case by (simp add: sorted_wrt_apart_insort)
qed


lemma overlaps_used_iff:
  assumes "in_step used results"
  shows "overlaps_used s e used \<longleftrightarrow> (\<exists>r \<in> set results. \<not> apart r (phone_result (s, e, phone)))"
proof -
  have "set (map (\<lambda>(s, e). (int s, int e)) used) = set (map (\<lambda>d. (start_pos d, end_pos d)) results)"
    using assms by (simp add: in_step_def)
  then have eq: "(\<lambda>(s, e). (int s, int e)) ` set used = (\<lambda>d. (start_pos d, end_pos d)) ` set results"
    by simp
  show ?thesis
  proof
    assume "overlaps_used s e used"
    then obtain us ue where u: "(us, ue) \<in> set used" "\<not> (e \<le> us \<or> s \<ge> ue)"
      by (auto simp: overlaps_used_def list_ex_iff)
    then have "(int us, int ue) \<in> (\<lambda>d. (start_pos d, end_pos d)) ` set results"
      using eq by force
    then obtain r where "r \<in> set results" "start_pos r = int us" "end_pos r = int ue"
      by auto
    with u(2) show "\<exists>r \<in> set results. \<not> apart r (phone_result (s, e, phone))"
      by (intro bexI [of _ r]) (auto simp: apart_def phone_result_def)
  next
    assume "\<exists>r \<in> set results. \<not> apart r (phone_result (s, e, phone))"
    then obtain r where r: "r \<in> set results" "\<not> apart r (phone_result (s, e, phone))"
      by auto
    then have "(start_pos r, end_pos r) \<in> (\<lambda>(s, e). (int s, int e)) ` set used"
      using eq by force
    then obtain us ue where "(us, ue) \<in> set used" "start_pos r = int us" "end_pos r = int ue"
      by auto
    with r(2) show "overlaps_used s e used"
      unfolding overlaps_used_def list_ex_iff
      by (intro bexI [of _ "(us, ue)"]) (auto simp: apart_def phone_result_def)
  qed
qed

lemma in_step_append:
  "in_step used results \<Longrightarrow> in_step (used @ [(s, e)]) (results @ [phone_result (s, e, phone)])"
  by (simp add: in_step_def phone_result_def)

lemma phone_select_step:
  "phone_select ((s, e, phone) # rest) used results =
     (if overlaps_used s e used then phone_select rest used results
      else phone_select rest (used @ [(s, e)]) (results @ [phone_result (s, e, phone)]))"
  by (simp add: phone_result_def)

lemma phone_select_apart:
  "in_step used results \<Longrightarrow> sorted_wrt apart results
     \<Longrightarrow> sorted_wrt apart (phone_select ms used results)"
proof (induction ms arbitrary: used results)
  case Nil
  then show ?case by simp
next
  case (Cons m ms)
  obtain s e phone where m: "m = (s, e, phone)" by (cases m)
  show ?case
  proof (cases "overlaps_used s e used")
    case True
    with Cons m show ?thesis by simp
  next
    case False
    then have "\<forall>r \<in> set results. apart r (phone_result (s, e, phone))"
      using overlaps_used_iff [OF Cons.prems(1), of s e phone] by blast
    with Cons.prems(2) have "sorted_wrt apart (results @ [phone_result (s, e, phone)])"
      by (simp add: sorted_wrt_append)
    from Cons.IH [OF in_step_append [OF Cons.prems(1)] this] False m
    show ?thesis by (simp only: phone_select_step if_False)
  qed
qed

lemma phone_select_mono: "set results \<subseteq> set (phone_select ms used results)"
proof (induction ms arbitrary: used results)
  case Nil
  then show ?case by simp
next
  case (Cons m ms)
  obtain s e phone where m: "m = (s, e, phone)" by (cases m)
  show ?case
  proof (cases "overlaps_used s e used")
    case True
    with Cons m show ?thesis by simp
  next
    case False
    have "set results \<subseteq> set (results @ [phone_result (s, e, phone)])" by auto
    also have "\<dots> \<subseteq> set (phone_select ms (used @ [(s, e)]) (results @ [phone_result (s, e, phone)]))"
      by (rule Cons.IH)
    finally show ?thesis using False m by (simp only: phone_select_step if_False)
  qed
qed

lemma phone_select_maximal:
  "in_step used results \<Longrightarrow> m \<in> set ms \<Longrightarrow>
     phone_result m \<in> set (phone_select ms used results)
     \<or> (\<exists>r \<in> set (phone_select ms used results). \<not> apart r (phone_result m))"
proof (induction ms arbitrary: used results)
  case Nil
  then show ?case by simp
next
  case (Cons x ms)
  obtain s e phone where x: "x = (s, e, phone)" by (cases x)
  show ?case
  proof (cases "overlaps_used s e used")
    case True
    note ov = this
    show ?thesis
    proof (cases "m = x")
      case True
      from ov obtain r where "r \<in> set results" "\<not> apart r (phone_result (s, e, phone))"
        using overlaps_used_iff [OF Cons.prems(1), of s e phone] by blast
      then show ?thesis using phone_select_mono [of results "x # ms" used] True x by blast
    next
      case False
      with Cons.prems(2) have "m \<in> set ms" by simp
      from Cons.IH [OF Cons.prems(1) this] ov x show ?thesis by simp
    qed
  next
    case False
    note nov = this
    let ?used = "used @ [(s, e)]" and ?results = "results @ [phone_result (s, e, phone)]"
    have step: "phone_select (x # ms) used results = phone_select ms ?used ?results"
      using nov x by (simp only: phone_select_step if_False)
    show ?thesis
    proof (cases "m = x")
      case True
      have "phone_result (s, e, phone) \<in> set ?results" by simp
      then have "phone_result m \<in> set (phone_select ms ?used ?results)"
        using phone_select_mono [of ?results ms ?used] True x by blast
      then show ?thesis by (simp only: step) blast
    next
      case False
      with Cons.prems(2) have "m \<in> set ms" by simp
      from Cons.IH [OF in_step_append [OF Cons.prems(1)] this]
      show ?thesis by (simp only: step)
    qed
  qed
qed


lemma phone_key_result: "phone_key m = det_key (phone_result m)"
  by (cases m) (simp add: phone_key_def det_key_def phone_result_def)

lemma phone_select_earlier:
  "in_step used results \<Longrightarrow> sorted (map phone_key ms)
     \<Longrightarrow> \<forall>r \<in> set results. \<forall>m \<in> set ms. det_key r \<le> phone_key m
     \<Longrightarrow> m \<in> set ms
     \<Longrightarrow> \<exists>r \<in> set (phone_select ms used results).
           det_key r \<le> phone_key m \<and> (r = phone_result m \<or> \<not> apart r (phone_result m))"
proof (induction ms arbitrary: used results)
  case Nil
  then show ?case by simp
next
  case (Cons x ms)
  obtain s e phone where x: "x = (s, e, phone)" by (cases x)
  have sorted_ms: "sorted (map phone_key ms)" and x_first: "\<forall>m \<in> set ms. phone_key x \<le> phone_key m"
    using Cons.prems(2) by auto
  show ?case
  proof (cases "overlaps_used s e used")
    case True
    note ov = this
    have step: "phone_select (x # ms) used results = phone_select ms used results"
      using ov x by simp
    have earlier: "\<forall>r \<in> set results. \<forall>m \<in> set ms. det_key r \<le> phone_key m"
      using Cons.prems(3) by simp
    show ?thesis
    proof (cases "m = x")
      case True
      from ov obtain r where r: "r \<in> set results" "\<not> apart r (phone_result (s, e, phone))"
        using overlaps_used_iff [OF Cons.prems(1), of s e phone] by blast
      have "r \<in> set (phone_select (x # ms) used results)"
        using r(1) phone_select_mono [of results "x # ms" used] by blast
      moreover have "det_key r \<le> phone_key m"
        using Cons.prems(3) r(1) True by simp
      ultimately show ?thesis using r(2) True x by blast
    next
      case False
      with Cons.prems(4) have "m \<in> set ms" by simp
      from Cons.IH [OF Cons.prems(1) sorted_ms earlier this] show ?thesis
        by (simp only: step)
    qed
  next
    case False
    note nov = this
    let ?new = "phone_result (s, e, phone)"
    let ?used = "used @ [(s, e)]" and ?results = "results @ [?new]"
    have step: "phone_select (x # ms) used results = phone_select ms ?used ?results"
      using nov x by (simp only: phone_select_step if_False)
    have earlier: "\<forall>r \<in> set ?results. \<forall>m \<in> set ms. det_key r \<le> phone_key m"
      using Cons.prems(3) x_first x by (auto simp: phone_key_result)
    show ?thesis
    proof (cases "m = x")
      case True
      have "?new \<in> set (phone_select ms ?used ?results)"
        using phone_select_mono [of ?results ms ?used] by auto
      moreover have "det_key ?new \<le> phone_key m"
        using True x by (simp add: phone_key_result)
      ultimately have "\<exists>r \<in> set (phone_select ms ?used ?results).
           det_key r \<le> phone_key m \<and> (r = phone_result m \<or> \<not> apart r (phone_result m))"
        using True x by blast
      then show ?thesis by (simp only: step)
    next
      case False
      with Cons.prems(4) have "m \<in> set ms" by simp
      from Cons.IH [OF in_step_append [OF Cons.prems(1)] sorted_ms earlier this]
      show ?thesis by (simp only: step)
    qed
  qed
qed

lemma sorted_wrt_apart_distinct:
  "sorted_wrt apart xs \<Longrightarrow> a \<in> set xs \<Longrightarrow> b \<in> set xs \<Longrightarrow> a \<noteq> b \<Longrightarrow> apart a b"
  by (induction xs) (auto simp: apart_sym)

lemma selected_apart:
  "sorted_wrt apart (phone_select (sort_key phone_key (phone_all_matches tx)) [] [])"
  by (rule phone_select_apart) (simp_all add: in_step_def)

lemma longest_preferred:
  assumes r: "r \<in> set (phone_detect tx field_name)"
    and m: "m \<in> set (phone_all_matches tx)"
    and same: "start_pos (phone_result m) = start_pos r"
  shows "end_pos (phone_result m) \<le> end_pos r"
proof (rule ccontr)
  assume "\<not> end_pos (phone_result m) \<le> end_pos r"
  then have longer: "end_pos r < end_pos (phone_result m)" by simp
  let ?sel = "phone_select (sort_key phone_key (phone_all_matches tx)) [] []"
  have r_sel: "r \<in> set ?sel" using r by (simp add: phone_detect_def)
  have r_span: "start_pos r < end_pos r"
    using phone_detect_span [OF r] by (simp add: span_in_def)
  have m_span: "start_pos (phone_result m) < end_pos (phone_result m)"
    using phone_all_matches_span [OF m] by (simp add: span_in_def)
  have key_less: "phone_key m < det_key r"
    using same longer by (simp add: phone_key_result det_key_def less_prod_def)
  have "m \<in> set (sort_key phone_key (phone_all_matches tx))" using m by simp
  from phone_select_earlier [of "[]" "[]" "sort_key phone_key (phone_all_matches tx)", OF _ _ _ this]
  obtain r' where r': "r' \<in> set ?sel" "det_key r' \<le> phone_key m"
      "r' = phone_result m \<or> \<not> apart r' (phone_result m)"
    by (auto simp: in_step_def)
  have "r' \<noteq> r" using r'(2) key_less by auto
  with sorted_wrt_apart_distinct [OF selected_apart r'(1) r_sel] have ap: "apart r' r" by simp
  have start_le: "start_pos r' \<le> start_pos r"
    using r'(2) same by (auto simp: phone_key_result det_key_def less_eq_prod_def)
  from r'(3) have "start_pos r < end_pos r'"
  proof
    assume "r' = phone_result m"
    with same m_span show ?thesis by simp
  next
    assume "\<not> apart r' (phone_result m)"
    with same show ?thesis by (simp add: apart_def)
  qed
  with ap start_le r_span show False by (simp add: apart_def)
qed

text \<open>The pool is what the specification says it is: the matches with 10 to 15 digits.\<close>

lemma phone_candidates_filter:
  "phone_candidates pattern tx =
     map (\<lambda>(s, e). (s, e, slice tx s e))
       (filter (\<lambda>(s, e). 10 \<le> digit_count (slice tx s e) \<and> digit_count (slice tx s e) \<le> 15)
          (finditer pattern tx 0))"
proof -
  have "concat (map (\<lambda>(s, e).
          let phone = slice tx s e; digit_count = length (filter isdigit_char phone)
          in if digit_count < 10 \<or> digit_count > 15 then [] else [(s, e, phone)]) ms)
      = map (\<lambda>(s, e). (s, e, slice tx s e))
          (filter (\<lambda>(s, e). 10 \<le> digit_count (slice tx s e) \<and> digit_count (slice tx s e) \<le> 15) ms)"
    for ms :: "(nat \<times> nat) list"
    by (induction ms) (auto simp: digit_count_def Let_def split: if_splits)
  then show ?thesis by (simp add: phone_candidates_def)
qed

lemma pool_surviving: "phone_all_matches tx = surviving tx"
  by (simp add: phone_all_matches_def surviving_def phone_candidates_filter)

lemma pool_digits:
  assumes "m \<in> set (phone_all_matches tx)"
  shows "10 \<le> digit_count (original_value (phone_result m))
       \<and> digit_count (original_value (phone_result m)) \<le> 15"
  using assms unfolding pool_surviving surviving_def
  by (auto simp: phone_result_def)

lemma detected_digits:
  assumes "d \<in> set (phone_detect tx field_name)"
  shows "10 \<le> digit_count (original_value d) \<and> digit_count (original_value d) \<le> 15"
  using assms phone_detect_subset [of tx field_name] pool_digits [of _ tx] by blast

text \<open>The selection is the greedy one: each pooled match is kept, or overlaps a kept match
  that comes before it in the sorted pool.\<close>

lemma selected_earlier:
  assumes "m \<in> set (phone_all_matches tx)"
  shows "\<exists>r \<in> set (phone_detect tx field_name).
           det_key r \<le> det_key (phone_result m)
           \<and> (r = phone_result m \<or> \<not> apart r (phone_result m))"
proof -
  have "m \<in> set (sort_key phone_key (phone_all_matches tx))" using assms by simp
  from phone_select_earlier [of "[]" "[]" "sort_key phone_key (phone_all_matches tx)", OF _ _ _ this]
  show ?thesis by (auto simp: in_step_def phone_detect_def phone_key_result)
qed

lemma four_patterns: "length PHONE_PATTERNS = 4"
  by (simp add: PHONE_PATTERNS_def)

lemma phone_detect_examples:
  "phone_detect ''(555) 123-4567'' field_name
     = [\<lparr>pii_type = PHONE, original_value = ''(555) 123-4567'', confidence = 1,
         start_pos = 0, end_pos = 14\<rparr>]"
  "phone_detect ''+1 2 3 4 555-123-4567'' field_name
     = [\<lparr>pii_type = PHONE, original_value = ''555-123-4567'', confidence = 1,
         start_pos = 9, end_pos = 21\<rparr>]"
proof -
  have "phone_detect ''(555) 123-4567'' ''''
     = [\<lparr>pii_type = PHONE, original_value = ''(555) 123-4567'', confidence = 1,
         start_pos = 0, end_pos = 14\<rparr>]"
    by code_simp
  then show "phone_detect ''(555) 123-4567'' field_name
     = [\<lparr>pii_type = PHONE, original_value = ''(555) 123-4567'', confidence = 1,
         start_pos = 0, end_pos = 14\<rparr>]"
    by (simp add: phone_detect_def)
  have "phone_detect ''+1 2 3 4 555-123-4567'' ''''
     = [\<lparr>pii_type = PHONE, original_value = ''555-123-4567'', confidence = 1,
         start_pos = 9, end_pos = 21\<rparr>]"
    by code_simp
  then show "phone_detect ''+1 2 3 4 555-123-4567'' field_name
     = [\<lparr>pii_type = PHONE, original_value = ''555-123-4567'', confidence = 1,
         start_pos = 9, end_pos = 21\<rparr>]"
    by (simp add: phone_detect_def)
qed

text \<open>
  Claim C3. For every text, the pool of the phone detector holds the matches of the four
  patterns whose digit count is 10 to 15, and no other. The detector returns its
  detections sorted by \<open>start_pos\<close>, with spans that are pairwise non-overlapping. Each
  of them is one of the pooled matches, so it has 10 to 15 digits; every pooled match is
  returned, or overlaps a returned one that comes before it in the order
  \<open>(start_pos, -(length))\<close> (the selection is greedy in that order); and a returned
  detection is at least as long as any pooled match that starts where it starts (the
  longest is preferred). On \<open>(555) 123-4567\<close> the result is exactly one detection,
  spanning the whole string. On \<open>+1 2 3 4 555-123-4567\<close> the match \<open>+1 2 3 4 555\<close> of
  the first pattern has 8 digits and is not pooled, so \<open>555-123-4567\<close> is returned.
\<close>

theorem phone_overlap_resolution:
  "length PHONE_PATTERNS = 4
   \<and> phone_all_matches tx = surviving tx
   \<and> sorted (map start_pos (phone_detect tx field_name))
   \<and> sorted_wrt apart (phone_detect tx field_name)
   \<and> set (phone_detect tx field_name) \<subseteq> phone_result ` set (phone_all_matches tx)
   \<and> (\<forall>d \<in> set (phone_detect tx field_name).
          10 \<le> digit_count (original_value d) \<and> digit_count (original_value d) \<le> 15)
   \<and> (\<forall>m \<in> set (phone_all_matches tx). \<exists>r \<in> set (phone_detect tx field_name).
          det_key r \<le> det_key (phone_result m)
          \<and> (r = phone_result m \<or> \<not> apart r (phone_result m)))
   \<and> (\<forall>r \<in> set (phone_detect tx field_name). \<forall>m \<in> set (phone_all_matches tx).
          start_pos (phone_result m) = start_pos r \<longrightarrow> end_pos (phone_result m) \<le> end_pos r)
   \<and> phone_detect ''(555) 123-4567'' field_name
        = [\<lparr>pii_type = PHONE, original_value = ''(555) 123-4567'', confidence = 1,
            start_pos = 0, end_pos = 14\<rparr>]
   \<and> phone_detect ''+1 2 3 4 555-123-4567'' field_name
        = [\<lparr>pii_type = PHONE, original_value = ''555-123-4567'', confidence = 1,
            start_pos = 9, end_pos = 21\<rparr>]"
proof -
  have a: "sorted (map start_pos (phone_detect tx field_name))"
    by (simp add: phone_detect_def)
  have b: "sorted_wrt apart (phone_detect tx field_name)"
    unfolding phone_detect_def by (rule sorted_wrt_apart_sort) (rule selected_apart)
  from a b four_patterns pool_surviving [of tx] phone_detect_subset [of tx field_name]
    detected_digits [of _ tx field_name] selected_earlier [of _ tx field_name]
    longest_preferred [of _ tx field_name] phone_detect_examples [of field_name]
  show ?thesis by blast
qed

theorem phone_overlap_resolution_witness:
  "surviving ''+1-555-123-4567'' = [(0, 15, ''+1-555-123-4567''), (3, 15, ''555-123-4567'')]
   \<and> phone_detect ''+1-555-123-4567'' ''''
        = [\<lparr>pii_type = PHONE, original_value = ''+1-555-123-4567'', confidence = 1,
            start_pos = 0, end_pos = 15\<rparr>]
   \<and> \<not> apart \<lparr>pii_type = PHONE, original_value = ''+1-555-123-4567'', confidence = 1,
            start_pos = 0, end_pos = 15\<rparr> (phone_result (3, 15, ''555-123-4567''))
   \<and> digit_count ''+1-555-123-4567'' = 11
   \<and> phone_detect (''Tel 555'' @ [CHR 0xA0] @ ''123'' @ [CHR 0x85] @ ''4567'') ''''
        = [\<lparr>pii_type = PHONE, original_value = ''555'' @ [CHR 0xA0] @ ''123'' @ [CHR 0x85] @ ''4567'',
            confidence = 1, start_pos = 4, end_pos = 16\<rparr>]"
proof -
  note inst = phone_overlap_resolution [of "''+1-555-123-4567''" "''''"]
  have pool: "phone_all_matches ''+1-555-123-4567''
      = [(0, 15, ''+1-555-123-4567''), (3, 15, ''555-123-4567'')]"
    by code_simp
  have surv: "surviving ''+1-555-123-4567'' = [(0, 15, ''+1-555-123-4567''), (3, 15, ''555-123-4567'')]"
    using inst pool by simp
  have res: "phone_detect ''+1-555-123-4567'' ''''
        = [\<lparr>pii_type = PHONE, original_value = ''+1-555-123-4567'', confidence = 1,
            start_pos = 0, end_pos = 15\<rparr>]"
    by code_simp
  have "(3, 15, ''555-123-4567'') \<in> set (phone_all_matches ''+1-555-123-4567'')"
    by (simp add: pool)
  with inst obtain r where r: "r \<in> set (phone_detect ''+1-555-123-4567'' '''')"
      "r = phone_result (3, 15, ''555-123-4567'') \<or> \<not> apart r (phone_result (3, 15, ''555-123-4567''))"
    by blast
  from r(1) have r_eq: "r = \<lparr>pii_type = PHONE, original_value = ''+1-555-123-4567'', confidence = 1,
            start_pos = 0, end_pos = 15\<rparr>"
    by (simp add: res)
  have "r \<noteq> phone_result (3, 15, ''555-123-4567'')"
    by (simp add: r_eq phone_result_def)
  with r(2) r_eq have over: "\<not> apart \<lparr>pii_type = PHONE, original_value = ''+1-555-123-4567'',
      confidence = 1, start_pos = 0, end_pos = 15\<rparr> (phone_result (3, 15, ''555-123-4567''))"
    by simp
  have digits: "digit_count ''+1-555-123-4567'' = 11" by code_simp
  have nbsp: "phone_detect (''Tel 555'' @ [CHR 0xA0] @ ''123'' @ [CHR 0x85] @ ''4567'') ''''
        = [\<lparr>pii_type = PHONE, original_value = ''555'' @ [CHR 0xA0] @ ''123'' @ [CHR 0x85] @ ''4567'',
            confidence = 1, start_pos = 4, end_pos = 16\<rparr>]"
    by code_simp
  from surv res over digits nbsp show ?thesis by blast
qed

section \<open>The credit card detector and the Luhn checksum\<close>

lemma length_luhn_double: "length (luhn_double i ds) = length ds"
proof (induction i ds rule: luhn_double.induct)
  case (1 i ds)
  show ?case
  proof (cases "i < length ds")
    case True
    from "1.IH" [OF True] True show ?thesis by (subst luhn_double.simps) simp
  next
    case False
    then show ?thesis by (subst luhn_double.simps) simp
  qed
qed

lemma nth_luhn_double:
  "j < length ds \<Longrightarrow> luhn_double i ds ! j
     = (if i \<le> j \<and> even (j - i) then (if ds ! j * 2 > 9 then ds ! j * 2 - 9 else ds ! j * 2)
        else ds ! j)"
proof (induction i ds rule: luhn_double.induct)
  case (1 i ds)
  show ?case
  proof (cases "i < length ds")
    case True
    let ?ds = "ds[i := (if ds ! i * 2 > 9 then ds ! i * 2 - 9 else ds ! i * 2)]"
    have unfold: "luhn_double i ds = luhn_double (i + 2) ?ds"
      using True by (subst luhn_double.simps) simp
    have j: "j < length ?ds" using "1.prems" by simp
    note IH = "1.IH" [OF True j]
    show ?thesis
    proof (cases "j = i")
      case True
      with IH \<open>i < length ds\<close> show ?thesis by (simp add: unfold)
    next
      case False
      have nth: "?ds ! j = ds ! j" using False by simp
      have cond: "(i \<le> j \<and> even (j - i)) = (i + 2 \<le> j \<and> even (j - (i + 2)))"
      proof (cases "i \<le> j")
        case True
        with False have "i < j" by simp
        then show ?thesis by (cases "j = Suc i") auto
      next
        case False
        then show ?thesis by simp
      qed
      show ?thesis unfolding unfold IH nth cond by (rule refl)
    qed
  next
    case False
    with "1.prems" show ?thesis by (subst luhn_double.simps) simp
  qed
qed

lemma luhn_double_enumerate:
  "luhn_double 1 (map digit_value cs) = map luhn_digit (enumerate 0 cs)"
proof (rule nth_equalityI)
  show "length (luhn_double 1 (map digit_value cs)) = length (map luhn_digit (enumerate 0 cs))"
    by (simp add: length_luhn_double)
next
  fix j assume "j < length (luhn_double 1 (map digit_value cs))"
  then have j: "j < length cs" by (simp add: length_luhn_double)
  have "(1 \<le> j \<and> even (j - 1)) = odd j" by (cases j) auto
  with j show "luhn_double 1 (map digit_value cs) ! j = map luhn_digit (enumerate 0 cs) ! j"
    by (simp add: nth_luhn_double nth_enumerate_eq luhn_digit_def)
qed

lemma luhn_check_valid: "luhn_check s = (isdigit s \<and> luhn_valid s)"
  using luhn_double_enumerate [of "rev s"]
  by (simp add: luhn_check_def luhn_valid_def Let_def)

lemma run_length_all:
  "list_all p cs \<Longrightarrow> run_length p (Some b) cs = min b (length cs)"
  by (induction cs arbitrary: b) (auto simp: min_def)

lemma run_length_none: "cs = [] \<or> \<not> p (hd cs) \<Longrightarrow> run_length p b cs = 0"
  by (cases cs) auto

lemma digit_not_sep: "is_digit c \<Longrightarrow> \<not> card_sep c"
  by (auto simp: is_digit_def card_sep_def is_space_def)

lemma digit_is_word: "is_digit c \<Longrightarrow> is_word c"
  by (simp add: is_word_def isdigit_char_def)

lemma list_all_drop: "list_all p xs \<Longrightarrow> list_all p (drop i xs)"
  by (auto simp: list_all_iff dest: in_set_dropD)

lemma ends_digits_exact:
  assumes "list_all is_digit tx" and "i + a \<le> length tx"
  shows "ends (Digits a a) tx i = [i + a]"
proof -
  have "run_length is_digit (Some a) (drop i tx) = a"
    using assms by (simp add: run_length_all list_all_drop min_def)
  then show ?thesis by (simp add: Digits_def)
qed

lemma ends_digits_short:
  assumes "length tx < i + a" and "0 < a"
  shows "ends (Digits a b) tx i = []"
proof -
  have "run_length is_digit (Some b) (drop i tx) \<le> length (drop i tx)"
    by (rule run_length_le)
  moreover have "length (drop i tx) = length tx - i" by simp
  ultimately have "run_length is_digit (Some b) (drop i tx) < a" using assms by arith
  then show ?thesis by (simp add: Digits_def Let_def)
qed

lemma ends_opt_sep:
  assumes "list_all is_digit tx"
  shows "ends (Opt card_sep) tx i = [i]"
proof -
  have "drop i tx = [] \<or> \<not> card_sep (hd (drop i tx))"
  proof (cases "i < length tx")
    case True
    then have "hd (drop i tx) = tx ! i" by (simp add: hd_drop_conv_nth)
    moreover have "is_digit (tx ! i)" using assms True by (simp add: list_all_length)
    ultimately show ?thesis by (simp add: digit_not_sep)
  next
    case False
    then show ?thesis by simp
  qed
  then have "run_length card_sep (Some 1) (drop i tx) = 0" by (rule run_length_none)
  then show ?thesis by (simp add: Opt_def)
qed

lemma boundary_inside:
  assumes "list_all is_digit tx" and "0 < e" and "e \<le> length tx"
  shows "ends WordBoundary tx e = (if e = length tx then [e] else [])"
proof -
  have "is_word (tx ! (e - 1))" using assms by (simp add: list_all_length digit_is_word)
  then have before: "word_before tx e" using assms by (simp add: word_before_def)
  have "word_after tx e = (e < length tx)"
    using assms by (auto simp: word_after_def list_all_length digit_is_word)
  with before assms(3) show ?thesis by auto
qed

lemma boundary_start:
  assumes "list_all is_digit tx" and "0 < length tx"
  shows "ends WordBoundary tx 0 = [0]"
  using assms by (simp add: word_before_def word_after_def list_all_length digit_is_word)

text \<open>The first alternative, \<open>4-4-4-{3..7}\<close>, on a run of 15 to 19 digits: the greedy last
  group takes every digit left, so the first end tried is the end of the text.\<close>

lemma ends_first_alternative:
  assumes "list_all is_digit tx" and "15 \<le> length tx" and "length tx \<le> 19"
  shows "\<exists>rest. ends (Seq [Digits 4 4, Opt card_sep, Digits 4 4, Opt card_sep, Digits 4 4,
            Opt card_sep, Digits 3 7]) tx 0 = length tx # rest"
proof -
  let ?k = "length tx - 12"
  have "min 7 (length tx - 12) = ?k" using assms(3) by simp
  then have "run_length is_digit (Some 7) (drop 12 tx) = ?k"
    using assms(1) by (simp add: run_length_all list_all_drop)
  moreover have "3 \<le> ?k" using assms by simp
  ultimately have "ends (Digits 3 7) tx 12 = (12 + ?k) # rev (map (\<lambda>n. 12 + n) [3 ..< ?k])"
    by (simp add: Digits_def)
  moreover have "12 + ?k = length tx" using assms by simp
  ultimately have last: "ends (Digits 3 7) tx 12 = length tx # rev (map (\<lambda>n. 12 + n) [3 ..< ?k])"
    by simp
  have d0: "ends (Digits 4 4) tx 0 = [4]"
    using ends_digits_exact [OF assms(1), of 0 4] assms(2) by simp
  have d4: "ends (Digits 4 4) tx 4 = [8]"
    using ends_digits_exact [OF assms(1), of 4 4] assms(2) by simp
  have d8: "ends (Digits 4 4) tx 8 = [12]"
    using ends_digits_exact [OF assms(1), of 8 4] assms(2) by simp
  show ?thesis
    by (simp add: d0 d4 d8 ends_opt_sep [OF assms(1)] last)
qed

lemma ends_card_pattern_start:
  assumes "list_all is_digit tx" and "15 \<le> length tx" and "length tx \<le> 19"
  shows "\<exists>rest. ends CARD_PATTERN tx 0 = length tx # rest"
proof -
  from ends_first_alternative [OF assms] obtain rest where
    first: "ends (Seq [Digits 4 4, Opt card_sep, Digits 4 4, Opt card_sep, Digits 4 4,
            Opt card_sep, Digits 3 7]) tx 0 = length tx # rest" ..
  have pos: "0 < length tx" using assms(2) by linarith
  with assms(1) have b0: "ends WordBoundary tx 0 = [0]" by (rule boundary_start)
  have "ends WordBoundary tx (length tx) = (if length tx = length tx then [length tx] else [])"
    using assms(1) pos by (rule boundary_inside) simp
  then have bn: "ends WordBoundary tx (length tx) = [length tx]"
    by (simp del: ends.simps)
  define A where "A = Seq [Digits 4 4, Opt card_sep, Digits 4 4, Opt card_sep, Digits 4 4,
            Opt card_sep, Digits 3 7]"
  define B where "B = Seq [Digits 4 4, Opt card_sep, Digits 6 6, Opt card_sep, Digits 5 5]"
  have shape: "CARD_PATTERN = Cat WordBoundary (Cat (Alt A B) WordBoundary)"
    by (simp add: CARD_PATTERN_def A_def B_def)
  have "ends A tx 0 = length tx # rest" using first by (simp only: A_def)
  then show ?thesis
    by (simp add: shape b0 bn del: ends.simps(2))
qed


lemma ends_card_pattern_end:
  assumes "list_all is_digit tx"
  shows "ends CARD_PATTERN tx (length tx) = []"
proof -
  have d: "ends (Digits 4 4) tx (length tx) = []"
    by (rule ends_digits_short) simp_all
  define A where "A = Seq [Digits 4 4, Opt card_sep, Digits 4 4, Opt card_sep, Digits 4 4,
            Opt card_sep, Digits 3 7]"
  define B where "B = Seq [Digits 4 4, Opt card_sep, Digits 6 6, Opt card_sep, Digits 5 5]"
  have shape: "CARD_PATTERN = Cat WordBoundary (Cat (Alt A B) WordBoundary)"
    by (simp add: CARD_PATTERN_def A_def B_def)
  have inner: "ends A tx (length tx) = []" "ends B tx (length tx) = []"
    by (simp_all add: A_def B_def d del: ends.simps(1,2))
  have "ends WordBoundary tx (length tx) = [length tx] \<or> ends WordBoundary tx (length tx) = []"
    by simp
  then show ?thesis
  proof
    assume "ends WordBoundary tx (length tx) = [length tx]"
    then show ?thesis by (simp add: shape inner del: ends.simps(1,2))
  next
    assume "ends WordBoundary tx (length tx) = []"
    then show ?thesis by (simp add: shape del: ends.simps(1,2))
  qed
qed

lemma finditer_card_digits:
  assumes "list_all is_digit tx" and "15 \<le> length tx" and "length tx \<le> 19"
  shows "finditer CARD_PATTERN tx 0 = [(0, length tx)]"
proof -
  from ends_card_pattern_start [OF assms] obtain rest where
    start: "ends CARD_PATTERN tx 0 = length tx # rest" ..
  have pos: "0 < length tx" using assms(2) by linarith
  have "finditer CARD_PATTERN tx (Suc (length tx)) = []"
    by (subst finditer.simps) simp
  then have "finditer CARD_PATTERN tx (length tx) = []"
    by (subst finditer.simps) (simp add: ends_card_pattern_end [OF assms(1)])
  with start pos show ?thesis
    by (subst finditer.simps) simp
qed

lemma filter_digits: "list_all is_digit tx \<Longrightarrow> filter (\<lambda>c. \<not> card_sep c) tx = tx"
  by (induction tx) (auto simp: digit_not_sep)

text \<open>On a run of 15 to 19 digits the detector reports the whole text exactly when the
  checksum of the specification holds.\<close>

lemma card_detect_digits:
  assumes "list_all is_digit tx" and "15 \<le> length tx" and "length tx \<le> 19"
  shows "card_detect tx field_name =
     (if luhn_valid tx
      then [\<lparr>pii_type = CREDIT_CARD, original_value = tx, confidence = 1, start_pos = 0,
              end_pos = int (length tx)\<rparr>]
      else [])"
proof -
  have "isdigit tx" using assms(1,2) by (auto simp: isdigit_def isdigit_char_def list_all_iff)
  then have "luhn_check tx = luhn_valid tx" by (simp add: luhn_check_valid)
  then show ?thesis
    using assms by (simp add: card_detect_def finditer_card_digits slice_def filter_digits)
qed

text \<open>A text shorter than 15 characters has no match of the pattern at all.\<close>

lemma card_detect_short: "length tx < 15 \<Longrightarrow> card_detect tx field_name = []"
proof -
  assume short: "length tx < 15"
  have "finditer CARD_PATTERN tx 0 = []"
  proof (cases "finditer CARD_PATTERN tx 0")
    case Nil
    then show ?thesis .
  next
    case (Cons m ms)
    obtain s e where "m = (s, e)" by (cases m)
    with Cons have "(s, e) \<in> set (finditer CARD_PATTERN tx 0)" by simp
    from finditer_bounds [OF this] short show ?thesis
      by (simp add: min_width_CARD_PATTERN)
  qed
  then show ?thesis by (simp add: card_detect_def)
qed

text \<open>What \<open>detect\<close> passes to \<open>_luhn_check\<close> are decimal digits: the match consists
  of characters of \<open>\d\<close> and of separators, and the separators are removed. So \<open>int(d)\<close>
  does not raise there.\<close>

lemma run_length_nth: "k < run_length p b cs \<Longrightarrow> p (cs ! k)"
proof (induction cs arbitrary: b k)
  case Nil
  then show ?case by simp
next
  case (Cons c cs)
  then show ?case by (cases k) (auto split: if_splits)
qed

lemma ends_consumes:
  "e \<in> set (ends r tx i) \<Longrightarrow> i \<le> k \<Longrightarrow> k < e \<Longrightarrow> consumes r (tx ! k)"
proof (induction r arbitrary: i e)
  case (Rep p lo hi)
  from Rep.prems(1) have "e \<le> i + run_length p hi (drop i tx)"
    by (auto simp: Let_def split: if_splits)
  with Rep.prems(2,3) have k: "k - i < run_length p hi (drop i tx)" by linarith
  then have "k - i < length (drop i tx)"
    using run_length_le [of p hi "drop i tx"] by linarith
  with run_length_nth [OF k] Rep.prems(2) show ?case by simp
next
  case WordBoundary
  then show ?case by (auto split: if_splits)
next
  case (Cat r s)
  from Cat.prems(1) obtain m where m: "m \<in> set (ends r tx i)" "e \<in> set (ends s tx m)"
    by auto
  show ?case
  proof (cases "k < m")
    case True
    from Cat.IH(1) [OF m(1) Cat.prems(2) True] show ?thesis by simp
  next
    case False
    then have "m \<le> k" by simp
    from Cat.IH(2) [OF m(2) this Cat.prems(3)] show ?thesis by simp
  qed
next
  case (Alt r s)
  from Alt.prems(1) consider "e \<in> set (ends r tx i)" | "e \<in> set (ends s tx i)"
    by auto
  then show ?case
  proof cases
    case 1
    from Alt.IH(1) [OF 1 Alt.prems(2,3)] show ?thesis by simp
  next
    case 2
    from Alt.IH(2) [OF 2 Alt.prems(2,3)] show ?thesis by simp
  qed
qed

lemma finditer_match:
  "(s, e) \<in> set (finditer r tx i) \<Longrightarrow> e \<in> set (ends r tx s)"
proof (induction r tx i rule: finditer.induct)
  case (1 r tx i)
  show ?case
  proof (cases "length tx < i")
    case True
    with "1.prems" show ?thesis by (simp add: finditer.simps [of r tx i])
  next
    case False
    note inside = this
    show ?thesis
    proof (cases "ends r tx i")
      case Nil
      with "1.prems" inside have "(s, e) \<in> set (finditer r tx (i + 1))"
        by (simp add: finditer.simps [of r tx i])
      from "1.IH"(1) [OF inside Nil this] show ?thesis .
    next
      case (Cons e0 rest)
      from "1.prems" inside Cons
      consider "(s, e) = (i, e0)" | "(s, e) \<in> set (finditer r tx (if i < e0 then e0 else i + 1))"
        by (auto simp add: finditer.simps [of r tx i])
      then show ?thesis
      proof cases
        case 1
        with Cons show ?thesis by simp
      next
        case 2
        from "1.IH"(2) [OF inside Cons 2] show ?thesis .
      qed
    qed
  qed
qed

lemma consumes_CARD_PATTERN: "consumes CARD_PATTERN c \<Longrightarrow> is_digit c \<or> card_sep c"
  by (auto simp: CARD_PATTERN_def Digits_def Opt_def)

lemma card_digits_decimal:
  assumes "(s, e) \<in> set (finditer CARD_PATTERN tx 0)"
  shows "list_all is_digit (filter (\<lambda>c. \<not> card_sep c) (slice tx s e))"
proof -
  have inside: "e \<le> length tx" using finditer_bounds [OF assms] by simp
  have "is_digit c \<or> card_sep c" if "c \<in> set (slice tx s e)" for c
  proof -
    from that obtain j where j: "j < length (slice tx s e)" "c = slice tx s e ! j"
      by (auto simp: in_set_conv_nth)
    then have "j < e - s" by (simp add: slice_def)
    with j inside have "c = tx ! (s + j)" "s + j < e"
      by (simp_all add: slice_def)
    with ends_consumes [OF finditer_match [OF assms], of "s + j"]
    show ?thesis by (simp add: consumes_CARD_PATTERN)
  qed
  then show ?thesis by (auto simp: list_all_iff)
qed

text \<open>
  Claim C2 says that a text which is one run of 13 to 19 digits is reported by the credit
  card detector exactly when its Luhn checksum holds. The run \<open>4222222222222\<close> has 13
  digits and a valid checksum (in the words of the specification and by \<open>_luhn_check\<close>),
  and the detector returns no detection for it: the pattern needs 15 digits at least.
\<close>

theorem luhn_13_digits_missed:
  "isdigit ''4222222222222'' \<and> length ''4222222222222'' = 13 \<and> luhn_valid ''4222222222222''
   \<and> luhn_check ''4222222222222''
   \<and> card_detect ''4222222222222'' field_name = []"
proof -
  have "isdigit ''4222222222222''" and "luhn_valid ''4222222222222''" and "luhn_check ''4222222222222''"
    by code_simp+
  then show ?thesis by (simp add: card_detect_short)
qed

lemma card_detect_examples:
  "card_detect ''4532015112830366'' field_name
     = [\<lparr>pii_type = CREDIT_CARD, original_value = ''4532015112830366'', confidence = 1,
         start_pos = 0, end_pos = 16\<rparr>]"
  "card_detect ''4532015112830367'' field_name = []"
proof -
  have "list_all is_digit ''4532015112830366''" "luhn_valid ''4532015112830366''"
    "list_all is_digit ''4532015112830367''" "\<not> luhn_valid ''4532015112830367''"
    by code_simp+
  then show "card_detect ''4532015112830366'' field_name
     = [\<lparr>pii_type = CREDIT_CARD, original_value = ''4532015112830366'', confidence = 1,
         start_pos = 0, end_pos = 16\<rparr>]"
    and "card_detect ''4532015112830367'' field_name = []"
    by (simp_all add: card_detect_digits)
qed

section \<open>Names: case preservation and cross-field linkage\<close>

lemma of_char_le: "(of_char (c::char) :: nat) \<le> 255"
proof -
  have "(of_char c :: nat) < 256" by simp
  then show ?thesis by linarith
qed

lemma lower_char_not_upper: "\<not> is_upper_char (lower_char c)"
  using of_char_le [of c]
  by (auto simp: lower_char_def is_upper_char_def)

lemma lower_char_lower: "is_cased c \<Longrightarrow> is_lower_char (lower_char c)"
  using of_char_le [of c]
  by (auto simp: lower_char_def is_cased_def is_lower_char_def is_upper_char_def)

lemma upper_char_no_lower:
  assumes "(of_char c :: nat) \<notin> {170, 181, 186, 255}" and "x \<in> set (upper_char c)"
  shows "\<not> is_lower_char x"
  using assms of_char_le [of c]
  by (auto simp: upper_char_def is_lower_char_def split: if_splits)

lemma upper_char_upper:
  assumes "(of_char c :: nat) \<notin> {170, 181, 186, 255}" and "is_cased c"
  shows "\<exists>x \<in> set (upper_char c). is_upper_char x"
  using assms of_char_le [of c]
  by (auto simp: upper_char_def is_cased_def is_lower_char_def is_upper_char_def split: if_splits)

text \<open>The characters that \<open>upper_char\<close> turns into capitals or leaves uncased.\<close>

lemma plain_char:
  assumes "upper_in_range s" and "CHR 0xAA \<notin> set s" and "CHR 0xBA \<notin> set s" and "c \<in> set s"
  shows "(of_char c :: nat) \<notin> {170, 181, 186, 255}"
proof -
  have "(of_char c :: nat) \<noteq> 181 \<and> (of_char c :: nat) \<noteq> 255"
    using assms(1,4) by (auto simp: upper_in_range_def list_all_iff)
  moreover have "c \<noteq> CHR 0xAA" "c \<noteq> CHR 0xBA" using assms(2-4) by auto
  then have "(of_char c :: nat) \<noteq> 170" "(of_char c :: nat) \<noteq> 186"
    by (cases c; auto)+
  ultimately show ?thesis by simp
qed

lemma str_lower_islower: "list_ex is_cased s \<Longrightarrow> islower (str_lower s)"
  by (auto simp: islower_def str_lower_def list_ex_iff lower_char_not_upper
      intro: lower_char_lower)

lemma str_upper_isupper:
  assumes "upper_in_range s" and "CHR 0xAA \<notin> set s" and "CHR 0xBA \<notin> set s"
    and "list_ex is_cased s"
  shows "isupper (str_upper s)"
proof -
  note plain = plain_char [OF assms(1-3)]
  from assms(4) obtain c where c: "c \<in> set s" "is_cased c" by (auto simp: list_ex_iff)
  from upper_char_upper [OF plain [OF c(1)] c(2)]
  have "list_ex is_upper_char (str_upper s)"
    using c(1) by (auto simp: str_upper_def list_ex_iff)
  moreover have "\<not> list_ex is_lower_char (str_upper s)"
    using upper_char_no_lower [OF plain] by (auto simp: str_upper_def list_ex_iff)
  ultimately show ?thesis by (simp add: isupper_def)
qed

lemma preserve_case_follows: "case_follows original fake (preserve_case original fake)"
  by (simp add: case_follows_def preserve_case_def str_upper_isupper str_lower_islower)


subsection \<open>What the generators return and what they change\<close>

lemma generate_first_name_result:
  assumes "generate_first_name F original s = (r, s')"
  shows "\<exists>f. first_name_map s' (str_lower original) = Some f \<and> r = preserve_case original f"
    and "first_name_map s \<subseteq>\<^sub>m first_name_map s'"
    and "last_name_map s' = last_name_map s"
    and "cache s' = cache s"
  using assms
  by (auto simp: generate_first_name_def Let_def map_le_def split: if_splits prod.splits)

lemma generate_last_name_result:
  assumes "generate_last_name F original s = (r, s')"
  shows "\<exists>l. last_name_map s' (str_lower original) = Some l \<and> r = preserve_case original l"
    and "last_name_map s \<subseteq>\<^sub>m last_name_map s'"
    and "first_name_map s' = first_name_map s"
    and "cache s' = cache s"
  using assms
  by (auto simp: generate_last_name_def Let_def map_le_def split: if_splits prod.splits)

lemma generate_full_name_result:
  assumes "generate_full_name F original s = (r, s')"
  shows "2 \<le> length (split original) \<Longrightarrow>
           \<exists>f l. first_name_map s' (str_lower (hd (split original))) = Some f
               \<and> last_name_map s' (str_lower (last (split original))) = Some l
               \<and> r = preserve_case original (f @ '' '' @ l)"
    and "\<not> 2 \<le> length (split original) \<Longrightarrow> r = preserve_case original (fst (fk_name F (faker s)))"
    and "first_name_map s \<subseteq>\<^sub>m first_name_map s'"
    and "last_name_map s \<subseteq>\<^sub>m last_name_map s'"
    and "cache s' = cache s"
  using assms
  by (auto simp: generate_full_name_def Let_def map_le_def split: if_splits prod.splits)

lemma generate_other_result:
  assumes "t = EMAIL \<or> t = PHONE \<or> t = CREDIT_CARD" and "generate F original t s = (r, s')"
  shows "first_name_map s' = first_name_map s" and "last_name_map s' = last_name_map s"
  using assms
  by (auto simp: generate_def generate_email_def generate_phone_def generate_credit_card_def
      Let_def split: if_splits prod.splits)


lemma generate_facts:
  assumes "generate F original t s = (fake, s1)"
  shows "first_name_map s \<subseteq>\<^sub>m first_name_map s1"
    and "last_name_map s \<subseteq>\<^sub>m last_name_map s1"
    and "cache s1 = cache s"
    and "t = FIRST_NAME \<Longrightarrow>
           \<exists>f. first_name_map s1 (str_lower original) = Some f \<and> fake = preserve_case original f"
    and "t = LAST_NAME \<Longrightarrow>
           \<exists>l. last_name_map s1 (str_lower original) = Some l \<and> fake = preserve_case original l"
    and "t = FULL_NAME \<Longrightarrow> 2 \<le> length (split original) \<Longrightarrow>
           \<exists>f l. first_name_map s1 (str_lower (hd (split original))) = Some f
               \<and> last_name_map s1 (str_lower (last (split original))) = Some l
               \<and> fake = preserve_case original (f @ '' '' @ l)"
proof -
  show "first_name_map s \<subseteq>\<^sub>m first_name_map s1"
    using assms generate_first_name_result(2) [of F original s fake s1]
      generate_last_name_result(3) [of F original s fake s1]
      generate_full_name_result(3) [of F original s fake s1]
      generate_other_result(1) [of t F original s fake s1]
    by (cases t) (auto simp: generate_def)
  show "last_name_map s \<subseteq>\<^sub>m last_name_map s1"
    using assms generate_first_name_result(3) [of F original s fake s1]
      generate_last_name_result(2) [of F original s fake s1]
      generate_full_name_result(4) [of F original s fake s1]
      generate_other_result(2) [of t F original s fake s1]
    by (cases t) (auto simp: generate_def)
  show "cache s1 = cache s"
    using generate_cache [of F original t s] assms by simp
  show "t = FIRST_NAME \<Longrightarrow>
           \<exists>f. first_name_map s1 (str_lower original) = Some f \<and> fake = preserve_case original f"
    using assms generate_first_name_result(1) [of F original s fake s1]
    by (simp add: generate_def)
  show "t = LAST_NAME \<Longrightarrow>
           \<exists>l. last_name_map s1 (str_lower original) = Some l \<and> fake = preserve_case original l"
    using assms generate_last_name_result(1) [of F original s fake s1]
    by (simp add: generate_def)
  show "t = FULL_NAME \<Longrightarrow> 2 \<le> length (split original) \<Longrightarrow>
           \<exists>f l. first_name_map s1 (str_lower (hd (split original))) = Some f
               \<and> last_name_map s1 (str_lower (last (split original))) = Some l
               \<and> fake = preserve_case original (f @ '' '' @ l)"
    using assms generate_full_name_result(1) [of F original s fake s1]
    by (simp add: generate_def)
qed

lemma goc_cases:
  assumes "get_or_create_replacement F original t s = (r, s')"
  obtains (hit) "cache s (original, t) = Some r" "s' = s"
  | (miss) s1 where "cache s (original, t) = None" "generate F original t s = (r, s1)"
      "s' = s1\<lparr>cache := (cache s1)((original, t) \<mapsto> r)\<rparr>"
  using assms
  by (auto simp: get_or_create_replacement_def split: option.splits prod.splits)

lemma goc_maps_grow:
  assumes "get_or_create_replacement F original t s = (r, s')"
  shows "first_name_map s \<subseteq>\<^sub>m first_name_map s'" and "last_name_map s \<subseteq>\<^sub>m last_name_map s'"
  using assms
  by (auto elim!: goc_cases dest: generate_facts(1,2))

lemma map_le_Some: "m \<subseteq>\<^sub>m m' \<Longrightarrow> m k = Some v \<Longrightarrow> m' k = Some v"
  by (metis domI map_le_def)

lemma names_linked_new: "names_linked (new_replacer g)"
  by (simp add: names_linked_def new_replacer_def)

lemma names_linked_goc:
  assumes inv: "names_linked s" and call: "get_or_create_replacement F original t s = (r, s')"
  shows "names_linked s'"
  using call
proof (cases rule: goc_cases)
  case hit
  with inv show ?thesis by simp
next
  case (miss s1)
  note g = generate_facts [OF miss(2)]
  have fm: "first_name_map s' = first_name_map s1" and lm: "last_name_map s' = last_name_map s1"
    using miss(3) by simp_all
  have old: "\<And>k v. k \<noteq> (original, t) \<Longrightarrow> cache s' k = Some v \<Longrightarrow> cache s k = Some v"
    using miss(3) g(3) by simp
  have new: "cache s' (original, t) = Some r" using miss(3) by simp
  show ?thesis
    unfolding names_linked_def
  proof (intro allI conjI impI)
    fix o' v
    assume c: "cache s' (o', FIRST_NAME) = Some v"
    show "\<exists>f. first_name_map s' (str_lower o') = Some f \<and> v = preserve_case o' f"
    proof (cases "(o', FIRST_NAME) = (original, t)")
      case True
      with c new g(4) fm show ?thesis by auto
    next
      case False
      from old [OF False c] inv obtain f where
        "first_name_map s (str_lower o') = Some f" "v = preserve_case o' f"
        unfolding names_linked_def by blast
      with map_le_Some [OF g(1)] fm show ?thesis by auto
    qed
  next
    fix o' v
    assume c: "cache s' (o', LAST_NAME) = Some v"
    show "\<exists>l. last_name_map s' (str_lower o') = Some l \<and> v = preserve_case o' l"
    proof (cases "(o', LAST_NAME) = (original, t)")
      case True
      with c new g(5) lm show ?thesis by auto
    next
      case False
      from old [OF False c] inv obtain l where
        "last_name_map s (str_lower o') = Some l" "v = preserve_case o' l"
        unfolding names_linked_def by blast
      with map_le_Some [OF g(2)] lm show ?thesis by auto
    qed
  next
    fix o' v
    assume c: "cache s' (o', FULL_NAME) = Some v" and two: "2 \<le> length (split o')"
    show "\<exists>f l. first_name_map s' (str_lower (hd (split o'))) = Some f
                \<and> last_name_map s' (str_lower (last (split o'))) = Some l
                \<and> v = preserve_case o' (f @ '' '' @ l)"
    proof (cases "(o', FULL_NAME) = (original, t)")
      case True
      with c new g(6) two fm lm show ?thesis by auto
    next
      case False
      from old [OF False c] inv two obtain f l where
        "first_name_map s (str_lower (hd (split o'))) = Some f"
        "last_name_map s (str_lower (last (split o'))) = Some l"
        "v = preserve_case o' (f @ '' '' @ l)"
        unfolding names_linked_def by blast
      with map_le_Some [OF g(1)] map_le_Some [OF g(2)] fm lm show ?thesis by auto
    qed
  qed
qed

lemma names_linked_replace_all: "names_linked s \<Longrightarrow> names_linked (replace_all F calls s)"
proof (induction calls arbitrary: s)
  case Nil
  then show ?case by simp
next
  case (Cons c calls)
  obtain v t where c: "c = (v, t)" by (cases c)
  have "names_linked (snd (get_or_create_replacement F v t s))"
    using names_linked_goc [OF Cons.prems, of F v t] by (simp add: prod_eq_iff)
  from Cons.IH [OF this] c show ?case by simp
qed


lemma goc_first_name:
  assumes "names_linked s" and "get_or_create_replacement F original FIRST_NAME s = (r, s')"
  shows "\<exists>f. first_name_map s' (str_lower original) = Some f \<and> r = preserve_case original f"
  using assms(2)
proof (cases rule: goc_cases)
  case hit
  with assms(1) show ?thesis unfolding names_linked_def by blast
next
  case (miss s1)
  with generate_facts(4) [OF miss(2)] show ?thesis by simp
qed

lemma goc_last_name:
  assumes "names_linked s" and "get_or_create_replacement F original LAST_NAME s = (r, s')"
  shows "\<exists>l. last_name_map s' (str_lower original) = Some l \<and> r = preserve_case original l"
  using assms(2)
proof (cases rule: goc_cases)
  case hit
  with assms(1) show ?thesis unfolding names_linked_def by blast
next
  case (miss s1)
  with generate_facts(5) [OF miss(2)] show ?thesis by simp
qed

lemma goc_full_name:
  assumes "names_linked s" and "get_or_create_replacement F original FULL_NAME s = (r, s')"
    and "2 \<le> length (split original)"
  shows "\<exists>f l. first_name_map s' (str_lower (hd (split original))) = Some f
             \<and> last_name_map s' (str_lower (last (split original))) = Some l
             \<and> r = preserve_case original (f @ '' '' @ l)"
  using assms(2)
proof (cases rule: goc_cases)
  case hit
  with assms(1,3) show ?thesis unfolding names_linked_def by blast
next
  case (miss s1)
  with generate_facts(6) [OF miss(2) refl assms(3)] show ?thesis by simp
qed

subsection \<open>Splitting a two-word name\<close>

lemma split_from_word:
  "\<not> list_ex is_space w \<Longrightarrow> split_from cur (w @ rest) = split_from (cur @ w) rest"
  by (induction w arbitrary: cur) auto

lemma split_two_words:
  assumes "one_word a" and "one_word b"
  shows "split (a @ '' '' @ b) = [a, b]"
proof -
  have sp: "is_space CHR '' ''" by (simp add: is_space_def)
  have "split (a @ '' '' @ b) = split_from a ('' '' @ b)"
    using assms(1) split_from_word [of a "[]" "'' '' @ b"] by (simp add: split_def one_word_def)
  also have "\<dots> = a # split_from [] b"
    using assms(1) sp by (simp add: one_word_def)
  also have "split_from [] b = split_from b []"
    using assms(2) split_from_word [of b "[]" "[]"] by (simp add: one_word_def)
  also have "\<dots> = [b]" using assms(2) by (simp add: one_word_def)
  finally show ?thesis .
qed

subsection \<open>Case preservation on a joined name\<close>

lemma isupper_join:
  "isupper (a @ '' '' @ b) =
     ((list_ex is_upper_char a \<or> list_ex is_upper_char b)
      \<and> \<not> list_ex is_lower_char a \<and> \<not> list_ex is_lower_char b)"
  by (auto simp: isupper_def list_ex_iff is_upper_char_def is_lower_char_def)

lemma islower_join:
  "islower (a @ '' '' @ b) =
     ((list_ex is_lower_char a \<or> list_ex is_lower_char b)
      \<and> \<not> list_ex is_upper_char a \<and> \<not> list_ex is_upper_char b)"
  by (auto simp: islower_def list_ex_iff is_upper_char_def is_lower_char_def)

lemma str_upper_join: "str_upper (a @ CHR '' '' # b) = str_upper a @ CHR '' '' # str_upper b"
  by (simp add: str_upper_def upper_char_def is_lower_char_def)

lemma str_lower_join: "str_lower (a @ CHR '' '' # b) = str_lower a @ CHR '' '' # str_lower b"
  by (simp add: str_lower_def lower_char_def is_upper_char_def)

lemma join_patterns:
  "isupper a \<Longrightarrow> isupper b \<Longrightarrow> isupper (a @ '' '' @ b)"
  "islower a \<Longrightarrow> islower b \<Longrightarrow> islower (a @ '' '' @ b) \<and> \<not> isupper (a @ '' '' @ b)"
  "\<not> isupper a \<Longrightarrow> \<not> isupper b \<Longrightarrow> \<not> islower a \<Longrightarrow> \<not> islower b
     \<Longrightarrow> \<not> isupper (a @ '' '' @ b) \<and> \<not> islower (a @ '' '' @ b)"
  unfolding isupper_join islower_join by (auto simp: isupper_def islower_def)

lemma preserve_case_join:
  assumes "case_pattern_of a = case_pattern_of b"
  shows "preserve_case (a @ '' '' @ b) (f @ '' '' @ l)
       = preserve_case a f @ '' '' @ preserve_case b l"
proof (cases "case_pattern_of a")
  case Uppercase
  with assms have u: "isupper a" "isupper b"
    by (auto simp: case_pattern_of_def split: if_splits)
  with join_patterns(1) [OF u] show ?thesis by (simp add: preserve_case_def str_upper_join)
next
  case Lowercase
  with assms have l: "islower a" "islower b" and n: "\<not> isupper a" "\<not> isupper b"
    by (auto simp: case_pattern_of_def split: if_splits)
  with join_patterns(2) [OF l] show ?thesis by (simp add: preserve_case_def str_lower_join)
next
  case Neither
  with assms have n: "\<not> isupper a" "\<not> isupper b" "\<not> islower a" "\<not> islower b"
    by (auto simp: case_pattern_of_def split: if_splits)
  with join_patterns(3) [OF n] show ?thesis by (simp add: preserve_case_def)
qed


lemma three_calls_shared:
  assumes inv: "names_linked s0" and a: "one_word a" and b: "one_word b"
    and c1: "get_or_create_replacement F x1 t1 s0 = (q1, s1)"
    and c2: "get_or_create_replacement F x2 t2 s1 = (q2, s2)"
    and c3: "get_or_create_replacement F (a @ '' '' @ b) FULL_NAME s2 = (r3, s3)"
    and first: "\<exists>f. first_name_map s2 (str_lower a) = Some f \<and> r1 = preserve_case a f"
    and last: "\<exists>l. last_name_map s2 (str_lower b) = Some l \<and> r2 = preserve_case b l"
  shows "\<exists>f l. first_name_map s3 (str_lower a) = Some f
             \<and> last_name_map s3 (str_lower b) = Some l
             \<and> r1 = preserve_case a f \<and> r2 = preserve_case b l
             \<and> r3 = preserve_case (a @ '' '' @ b) (f @ '' '' @ l)"
proof -
  have inv2: "names_linked s2"
    using names_linked_goc [OF names_linked_goc [OF inv c1] c2] .
  have words: "split (a @ '' '' @ b) = [a, b]" using a b by (rule split_two_words)
  from first obtain f where f: "first_name_map s2 (str_lower a) = Some f" "r1 = preserve_case a f"
    by blast
  from last obtain l where l: "last_name_map s2 (str_lower b) = Some l" "r2 = preserve_case b l"
    by blast
  have f3: "first_name_map s3 (str_lower a) = Some f"
    using map_le_Some [OF goc_maps_grow(1) [OF c3] f(1)] .
  have l3: "last_name_map s3 (str_lower b) = Some l"
    using map_le_Some [OF goc_maps_grow(2) [OF c3] l(1)] .
  from goc_full_name [OF inv2 c3] words obtain f' l' where
    "first_name_map s3 (str_lower a) = Some f'" "last_name_map s3 (str_lower b) = Some l'"
    "r3 = preserve_case (a @ '' '' @ b) (f' @ '' '' @ l')"
    by auto
  with f3 l3 f(2) l(2) show ?thesis by auto
qed

lemma standalone_then_full_shared:
  assumes "names_linked s0" and "one_word a" and "one_word b"
  obtains r1 r2 r3 s3 f l where "standalone_then_full F a b s0 = (r1, r2, r3, s3)"
    and "first_name_map s3 (str_lower a) = Some f" and "last_name_map s3 (str_lower b) = Some l"
    and "r1 = preserve_case a f" and "r2 = preserve_case b l"
    and "r3 = preserve_case (a @ '' '' @ b) (f @ '' '' @ l)"
proof -
  obtain r1 s1 where c1: "get_or_create_replacement F a FIRST_NAME s0 = (r1, s1)" by fastforce
  obtain r2 s2 where c2: "get_or_create_replacement F b LAST_NAME s1 = (r2, s2)" by fastforce
  obtain r3 s3 where c3: "get_or_create_replacement F (a @ '' '' @ b) FULL_NAME s2 = (r3, s3)"
    by fastforce
  from goc_first_name [OF assms(1) c1] obtain f where
    f: "first_name_map s1 (str_lower a) = Some f" "r1 = preserve_case a f" by blast
  have first: "\<exists>f. first_name_map s2 (str_lower a) = Some f \<and> r1 = preserve_case a f"
    using map_le_Some [OF goc_maps_grow(1) [OF c2] f(1)] f(2) by blast
  have last: "\<exists>l. last_name_map s2 (str_lower b) = Some l \<and> r2 = preserve_case b l"
    using goc_last_name [OF names_linked_goc [OF assms(1) c1] c2] .
  have run: "standalone_then_full F a b s0 = (r1, r2, r3, s3)"
    using c1 c2 c3 by (simp add: standalone_then_full_def)
  from three_calls_shared [OF assms c1 c2 c3 first last] run that show ?thesis by blast
qed

lemma last_first_then_full_shared:
  assumes "names_linked s0" and "one_word a" and "one_word b"
  obtains r1 r2 r3 s3 f l where "last_first_then_full F a b s0 = (r1, r2, r3, s3)"
    and "first_name_map s3 (str_lower a) = Some f" and "last_name_map s3 (str_lower b) = Some l"
    and "r1 = preserve_case a f" and "r2 = preserve_case b l"
    and "r3 = preserve_case (a @ '' '' @ b) (f @ '' '' @ l)"
proof -
  obtain r2 s1 where c1: "get_or_create_replacement F b LAST_NAME s0 = (r2, s1)" by fastforce
  obtain r1 s2 where c2: "get_or_create_replacement F a FIRST_NAME s1 = (r1, s2)" by fastforce
  obtain r3 s3 where c3: "get_or_create_replacement F (a @ '' '' @ b) FULL_NAME s2 = (r3, s3)"
    by fastforce
  from goc_last_name [OF assms(1) c1] obtain l where
    l: "last_name_map s1 (str_lower b) = Some l" "r2 = preserve_case b l" by blast
  have last: "\<exists>l. last_name_map s2 (str_lower b) = Some l \<and> r2 = preserve_case b l"
    using map_le_Some [OF goc_maps_grow(2) [OF c2] l(1)] l(2) by blast
  have first: "\<exists>f. first_name_map s2 (str_lower a) = Some f \<and> r1 = preserve_case a f"
    using goc_first_name [OF names_linked_goc [OF assms(1) c1] c2] .
  have run: "last_first_then_full F a b s0 = (r1, r2, r3, s3)"
    using c1 c2 c3 by (simp add: last_first_then_full_def)
  from three_calls_shared [OF assms c1 c2 c3 first last] run that show ?thesis by blast
qed

lemma shared_linked:
  assumes "first_name_map s3 (str_lower a) = Some f" and "last_name_map s3 (str_lower b) = Some l"
    and "r1 = preserve_case a f" and "r2 = preserve_case b l"
    and "r3 = preserve_case (a @ '' '' @ b) (f @ '' '' @ l)"
  shows "linked a b (r1, r2, r3, s3)"
  unfolding linked_def using assms preserve_case_follows by auto

lemma shared_joined:
  assumes "case_pattern_of a = case_pattern_of b"
    and "r1 = preserve_case a f" and "r2 = preserve_case b l"
    and "r3 = preserve_case (a @ '' '' @ b) (f @ '' '' @ l)"
  shows "joined (r1, r2, r3, s3)"
  using assms preserve_case_join [OF assms(1), of f l] by (simp add: joined_def)

lemma case_follows_upper:
  "isupper original \<Longrightarrow> upper_in_range fake \<Longrightarrow> case_follows original fake r \<Longrightarrow>
     r = str_upper fake
     \<and> (list_ex is_cased fake \<and> CHR 0xAA \<notin> set fake \<and> CHR 0xBA \<notin> set fake \<longrightarrow> isupper r)"
  by (auto simp: case_follows_def)

lemma case_follows_lower:
  "\<not> isupper original \<Longrightarrow> islower original \<Longrightarrow> case_follows original fake r \<Longrightarrow>
     r = str_lower fake \<and> (list_ex is_cased fake \<longrightarrow> islower r)"
  by (auto simp: case_follows_def)

lemma case_follows_neither:
  "\<not> isupper original \<Longrightarrow> \<not> islower original \<Longrightarrow> case_follows original fake r \<Longrightarrow> r = fake"
  by (auto simp: case_follows_def)

text \<open>
  Claim C7. \<open>_preserve_case\<close> follows the three-way rule, and so does every name
  generator: \<open>_generate_first_name\<close> and \<open>_generate_last_name\<close> return the entry of the
  shared map under the lowercased original, \<open>_generate_full_name\<close> the two entries joined
  by a space (or, for a single word, what \<open>Faker.name\<close> gives), each passed through the
  rule: in uppercase, and entirely uppercase, for an entirely uppercase original; in
  lowercase, and entirely lowercase, for an entirely lowercase one; unchanged otherwise.
  Originals and fakes are any strings over the code points below 256, read as Python reads
  them (\<open>JOS\<close> followed by \<open>0xE9\<close> is of mixed case, \<open>0xC9\<close> alone is uppercase); the
  uppercase branch is stated for the fakes whose uppercase stays below 256.
\<close>

theorem case_preservation:
  "case_follows original fake (preserve_case original fake)
   \<and> (\<exists>f. first_name_map (snd (generate_first_name F original s)) (str_lower original) = Some f
          \<and> case_follows original f (fst (generate_first_name F original s)))
   \<and> (\<exists>l. last_name_map (snd (generate_last_name F original s)) (str_lower original) = Some l
          \<and> case_follows original l (fst (generate_last_name F original s)))
   \<and> (if 2 \<le> length (split original)
       then \<exists>f l. first_name_map (snd (generate_full_name F original s))
                     (str_lower (hd (split original))) = Some f
                 \<and> last_name_map (snd (generate_full_name F original s))
                     (str_lower (last (split original))) = Some l
                 \<and> case_follows original (f @ '' '' @ l) (fst (generate_full_name F original s))
       else case_follows original (fst (fk_name F (faker s)))
              (fst (generate_full_name F original s)))"
proof -
  obtain r1 s1 where g1: "generate_first_name F original s = (r1, s1)" by fastforce
  obtain r2 s2 where g2: "generate_last_name F original s = (r2, s2)" by fastforce
  obtain r3 s3 where g3: "generate_full_name F original s = (r3, s3)" by fastforce
  have first: "\<exists>f. first_name_map s1 (str_lower original) = Some f \<and> case_follows original f r1"
    using generate_first_name_result(1) [OF g1] preserve_case_follows by blast
  have last: "\<exists>l. last_name_map s2 (str_lower original) = Some l \<and> case_follows original l r2"
    using generate_last_name_result(1) [OF g2] preserve_case_follows by blast
  have full: "2 \<le> length (split original) \<Longrightarrow>
      \<exists>f l. first_name_map s3 (str_lower (hd (split original))) = Some f
          \<and> last_name_map s3 (str_lower (last (split original))) = Some l
          \<and> case_follows original (f @ '' '' @ l) r3"
    using generate_full_name_result(1) [OF g3] preserve_case_follows by blast
  have single: "\<not> 2 \<le> length (split original) \<Longrightarrow>
      case_follows original (fst (fk_name F (faker s))) r3"
    using generate_full_name_result(2) [OF g3] preserve_case_follows by simp
  show ?thesis
    using first last full single preserve_case_follows [of original fake]
    by (simp add: g1 g2 g3)
qed

theorem case_preservation_witness:
  "isupper ''JOHN'' \<and> preserve_case ''JOHN'' ''Michael'' = ''MICHAEL''
   \<and> isupper (preserve_case ''JOHN'' ''Michael'')
   \<and> islower ''jane doe'' \<and> preserve_case ''jane doe'' ''Sarah Brown'' = ''sarah brown''
   \<and> islower (preserve_case ''jane doe'' ''Sarah Brown'')
   \<and> preserve_case ''McAdam'' ''Jones'' = ''Jones''
   \<and> isupper [CHR 0xC9] \<and> preserve_case [CHR 0xC9] ''Michael'' = ''MICHAEL''
   \<and> \<not> isupper (''JOS'' @ [CHR 0xE9]) \<and> \<not> islower (''JOS'' @ [CHR 0xE9])
   \<and> preserve_case (''JOS'' @ [CHR 0xE9]) ''Michael'' = ''Michael''"
proof -
  have orig: "isupper ''JOHN''" "islower ''jane doe''" "\<not> isupper ''jane doe''"
    "\<not> isupper ''McAdam''" "\<not> islower ''McAdam''" "isupper [CHR 0xC9]"
    "\<not> isupper (''JOS'' @ [CHR 0xE9])" "\<not> islower (''JOS'' @ [CHR 0xE9])"
    by code_simp+
  have fakes: "upper_in_range ''Michael''" "list_ex is_cased ''Michael''"
    "CHR 0xAA \<notin> set ''Michael''" "CHR 0xBA \<notin> set ''Michael''"
    "list_ex is_cased ''Sarah Brown''"
    "str_upper ''Michael'' = ''MICHAEL''" "str_lower ''Sarah Brown'' = ''sarah brown''"
    by code_simp+
  have "case_follows ''JOHN'' ''Michael'' (preserve_case ''JOHN'' ''Michael'')"
    using case_preservation by blast
  from case_follows_upper [OF orig(1) fakes(1) this] fakes(2-4)
  have upper: "preserve_case ''JOHN'' ''Michael'' = str_upper ''Michael''"
      "isupper (preserve_case ''JOHN'' ''Michael'')"
    by blast+
  have "case_follows [CHR 0xC9] ''Michael'' (preserve_case [CHR 0xC9] ''Michael'')"
    using case_preservation by blast
  from case_follows_upper [OF orig(6) fakes(1) this]
  have accent: "preserve_case [CHR 0xC9] ''Michael'' = str_upper ''Michael''"
    by blast
  have "case_follows ''jane doe'' ''Sarah Brown'' (preserve_case ''jane doe'' ''Sarah Brown'')"
    using case_preservation by blast
  from case_follows_lower [OF orig(3,2) this] fakes(5)
  have lower: "preserve_case ''jane doe'' ''Sarah Brown'' = str_lower ''Sarah Brown''"
      "islower (preserve_case ''jane doe'' ''Sarah Brown'')"
    by blast+
  have "case_follows ''McAdam'' ''Jones'' (preserve_case ''McAdam'' ''Jones'')"
    using case_preservation by blast
  from case_follows_neither [OF orig(4,5) this]
  have neither: "preserve_case ''McAdam'' ''Jones'' = ''Jones''" .
  have "case_follows (''JOS'' @ [CHR 0xE9]) ''Michael'' (preserve_case (''JOS'' @ [CHR 0xE9]) ''Michael'')"
    using case_preservation by blast
  from case_follows_neither [OF orig(7,8) this]
  have mixed: "preserve_case (''JOS'' @ [CHR 0xE9]) ''Michael'' = ''Michael''" .
  from orig(1,2,6,7,8) fakes(6,7) upper lower neither accent mixed show ?thesis by metis
qed

text \<open>
  Claim C4, as amended. Let \<open>F\<close> and \<open>L\<close> be names of one word each (not empty and free
  of whitespace, as \<open>str.split\<close> reads it), on a Replacer whose cache agrees with its name
  maps (a new one, or one reached by any calls). Replace \<open>F\<close> as a first name and \<open>L\<close>
  as a last name, in either order, then \<open>F L\<close> as a full name. The three replacements
  come from one fake first name \<open>f\<close> and one fake last name \<open>l\<close> of the shared maps:
  they follow the case rule for \<open>F\<close> and \<open>f\<close>, for \<open>L\<close> and \<open>l\<close>, and for \<open>F L\<close> and
  \<open>f l\<close>. When \<open>F\<close> and \<open>L\<close> have the same case pattern, the full-name replacement is
  the replacement of \<open>F\<close>, a space, and the replacement of \<open>L\<close>.
\<close>

theorem name_linkage:
  assumes "names_linked s0" and "one_word a" and "one_word b"
  shows "linked a b (standalone_then_full F a b s0)
     \<and> linked a b (last_first_then_full F a b s0)
     \<and> (case_pattern_of a = case_pattern_of b \<longrightarrow>
          joined (standalone_then_full F a b s0) \<and> joined (last_first_then_full F a b s0))"
proof -
  from assms obtain r1 r2 r3 s3 f l where one:
    "standalone_then_full F a b s0 = (r1, r2, r3, s3)"
    "first_name_map s3 (str_lower a) = Some f" "last_name_map s3 (str_lower b) = Some l"
    "r1 = preserve_case a f" "r2 = preserve_case b l"
    "r3 = preserve_case (a @ '' '' @ b) (f @ '' '' @ l)"
    by (rule standalone_then_full_shared)
  from assms obtain q1 q2 q3 t3 g m where two:
    "last_first_then_full F a b s0 = (q1, q2, q3, t3)"
    "first_name_map t3 (str_lower a) = Some g" "last_name_map t3 (str_lower b) = Some m"
    "q1 = preserve_case a g" "q2 = preserve_case b m"
    "q3 = preserve_case (a @ '' '' @ b) (g @ '' '' @ m)"
    by (rule last_first_then_full_shared)
  have "linked a b (r1, r2, r3, s3)" using one(2-6) by (rule shared_linked)
  moreover have "linked a b (q1, q2, q3, t3)" using two(2-6) by (rule shared_linked)
  moreover have "case_pattern_of a = case_pattern_of b \<longrightarrow> joined (r1, r2, r3, s3)"
    using shared_joined [OF _ one(4-6)] by blast
  moreover have "case_pattern_of a = case_pattern_of b \<longrightarrow> joined (q1, q2, q3, t3)"
    using shared_joined [OF _ two(4-6)] by blast
  ultimately show ?thesis by (simp add: one(1) two(1))
qed

theorem name_linkage_witness:
  "joined (standalone_then_full demo_faker ''John'' ''Smith'' (new_replacer 0))
   \<and> joined (last_first_then_full demo_faker ''John'' ''Smith'' (new_replacer 0))
   \<and> (case standalone_then_full demo_faker ''John'' ''Smith'' (new_replacer 0) of
        (r1, r2, r3, s) \<Rightarrow> (r1, r2, r3)) = (''Michael'', ''Brown'', ''Michael Brown'')
   \<and> (case last_first_then_full demo_faker ''John'' ''Smith'' (new_replacer 0) of
        (r1, r2, r3, s) \<Rightarrow> (r1, r2, r3)) = (''Sarah'', ''Jones'', ''Sarah Jones'')"
proof -
  have "one_word ''John''" "one_word ''Smith''" "case_pattern_of ''John'' = case_pattern_of ''Smith''"
    by code_simp+
  moreover have "(case standalone_then_full demo_faker ''John'' ''Smith'' (new_replacer 0) of
        (r1, r2, r3, s) \<Rightarrow> (r1, r2, r3)) = (''Michael'', ''Brown'', ''Michael Brown'')"
    by code_simp
  moreover have "(case last_first_then_full demo_faker ''John'' ''Smith'' (new_replacer 0) of
        (r1, r2, r3, s) \<Rightarrow> (r1, r2, r3)) = (''Sarah'', ''Jones'', ''Sarah Jones'')"
    by code_simp
  ultimately show ?thesis
    using name_linkage [OF names_linked_new, of "''John''" "''Smith''" demo_faker 0] by blast
qed

text \<open>As stated, for any \<open>F\<close> and \<open>L\<close>, the claim fails: with \<open>John\<close> and \<open>SMITH\<close> the
  full name is of mixed case and keeps the casing of the generator, while \<open>SMITH\<close> alone
  is replaced in capitals; and the first word of \<open>Mary Ann Smith\<close> is \<open>Mary\<close>, not the
  first name \<open>Mary Ann\<close> that was replaced on its own.\<close>

theorem name_linkage_counterexample:
  "(case standalone_then_full demo_faker ''John'' ''SMITH'' (new_replacer 0) of
      (r1, r2, r3, s) \<Rightarrow> r1 = ''Michael'' \<and> r2 = ''BROWN'' \<and> r3 = ''Michael Brown''
         \<and> r3 \<noteq> r1 @ '' '' @ r2)
   \<and> (case standalone_then_full demo_faker ''Mary Ann'' ''Smith'' (new_replacer 0) of
      (r1, r2, r3, s) \<Rightarrow> r1 = ''Michael'' \<and> r2 = ''Brown'' \<and> r3 = ''David Brown''
         \<and> r3 \<noteq> r1 @ '' '' @ r2)"
  by code_simp

section \<open>Phone numbers of digits only\<close>

lemma isdigit_no_separator:
  assumes "isdigit original" and "\<not> isdigit_char c"
  shows "c \<notin> set original"
  using assms by (auto simp: isdigit_def list_all_iff)

lemma generate_phone_digits:
  assumes "isdigit original"
  shows "fst (generate_phone F original s)
       = take (length original) (filter is_digit (fst (fk_phone_number F (faker s))))"
proof -
  have "CHR ''+'' \<notin> set original" "CHR ''-'' \<notin> set original" "CHR ''('' \<notin> set original"
    by (rule isdigit_no_separator [OF assms], simp add: isdigit_char_def is_digit_def)+
  with assms show ?thesis
    by (simp add: generate_phone_def Let_def slice_def split: prod.splits)
qed

text \<open>
  Claim C8, as amended. For an original phone value made of digits only and not yet in
  the cache, the replacement is the digit string of the generated phone number cut to the
  length of the original: it consists of digits only and its length is the smaller of the
  length of the original and the number of digits generated. Nothing is padded.
\<close>

theorem phone_digits_truncated:
  assumes "isdigit original" and "cache s (original, PHONE) = None"
  shows "fst (get_or_create_replacement F original PHONE s)
           = take (length original) (filter is_digit (fst (fk_phone_number F (faker s))))
     \<and> list_all is_digit (fst (get_or_create_replacement F original PHONE s))
     \<and> length (fst (get_or_create_replacement F original PHONE s))
           = min (length original) (length (filter is_digit (fst (fk_phone_number F (faker s)))))"
proof -
  have "fst (get_or_create_replacement F original PHONE s) = fst (generate_phone F original s)"
    using assms(2) by (simp add: get_or_create_replacement_def generate_def split: prod.splits)
  then have r: "fst (get_or_create_replacement F original PHONE s)
           = take (length original) (filter is_digit (fst (fk_phone_number F (faker s))))"
    using generate_phone_digits [OF assms(1)] by simp
  have "list_all is_digit (take (length original) (filter is_digit (fst (fk_phone_number F (faker s)))))"
    by (auto simp: list_all_iff dest: in_set_takeD)
  with r show ?thesis by (simp add: min.commute)
qed

theorem phone_digits_truncated_witness:
  "fst (get_or_create_replacement demo_faker ''5551234567'' PHONE (new_replacer 0)) = ''2025550110''
   \<and> list_all is_digit (fst (get_or_create_replacement demo_faker ''5551234567'' PHONE (new_replacer 0)))
   \<and> length (fst (get_or_create_replacement demo_faker ''5551234567'' PHONE (new_replacer 0)))
        = length ''5551234567''"
proof -
  have h: "isdigit ''5551234567''" "cache (new_replacer (0::nat)) (''5551234567'', PHONE) = None"
    by code_simp+
  have e: "take (length ''5551234567'') (filter is_digit (fst (fk_phone_number demo_faker (faker (new_replacer 0)))))
      = ''2025550110''"
    by code_simp
  from phone_digits_truncated [OF h, of demo_faker]
  have a: "fst (get_or_create_replacement demo_faker ''5551234567'' PHONE (new_replacer 0))
      = take (length ''5551234567'') (filter is_digit (fst (fk_phone_number demo_faker (faker (new_replacer 0)))))"
    and b: "list_all is_digit (fst (get_or_create_replacement demo_faker ''5551234567'' PHONE (new_replacer 0)))"
    by blast+
  have r: "fst (get_or_create_replacement demo_faker ''5551234567'' PHONE (new_replacer 0)) = ''2025550110''"
    using a e by (rule trans)
  have "length (fst (get_or_create_replacement demo_faker ''5551234567'' PHONE (new_replacer 0)))
        = length ''5551234567''"
    unfolding r by simp
  with r b show ?thesis by blast
qed

text \<open>As stated, with the result always as long as the original, the claim fails: for
  an original of 15 digits and a generated number of 10 digits the result has 10.\<close>

theorem phone_padding_counterexample:
  "isdigit ''123456789012345''
   \<and> cache (new_replacer (0::nat)) (''123456789012345'', PHONE) = None
   \<and> fst (fk_phone_number demo_faker (faker (new_replacer 0))) = ''202-555-0110''
   \<and> fst (get_or_create_replacement demo_faker ''123456789012345'' PHONE (new_replacer 0))
        = ''2025550110''
   \<and> length (fst (get_or_create_replacement demo_faker ''123456789012345'' PHONE (new_replacer 0)))
        \<noteq> length ''123456789012345''"
  by code_simp

section \<open>The walker on records without strings\<close>

lemma dict_set_new: "key \<notin> fst ` set d \<Longrightarrow> dict_set d key v = d @ [(key, v)]"
  by (induction d) auto

lemma walk_string_free:
  "string_free v \<Longrightarrow> unique_keys v \<Longrightarrow> sanitize_value D F v field_name st = (v, st)"
  "(\<forall>x \<in> set items. string_free x \<and> unique_keys x)
     \<Longrightarrow> sanitize_items D F items field_name st = (items, st)"
  "(\<forall>e \<in> set entries. string_free (snd e) \<and> unique_keys (snd e))
     \<Longrightarrow> distinct (map fst (acc @ entries))
     \<Longrightarrow> sanitize_dict D F entries acc st = (acc @ entries, st)"
proof (induction D F v field_name st and D F items field_name st and D F entries acc st
    rule: sanitize_value_sanitize_items_sanitize_dict.induct)
  case (11 D F key nested_value rest sanitized_dict st)
  have v: "string_free nested_value" "unique_keys nested_value"
    using "11.prems"(1) by auto
  have step: "sanitize_value D F nested_value key st = (nested_value, st)"
    using "11.IH"(1) v by simp
  have fresh: "key \<notin> fst ` set sanitized_dict" using "11.prems"(2) by auto
  have "sanitize_dict D F rest (dict_set sanitized_dict key nested_value) st
      = (dict_set sanitized_dict key nested_value @ rest, st)"
    using "11.IH"(2) [OF step [symmetric]] "11.prems" fresh
    by (simp add: dict_set_new)
  with step fresh show ?case by (simp add: dict_set_new)
qed auto


lemma records_string_free:
  "(\<forall>r \<in> set records. is_object r \<and> string_free r \<and> unique_keys r)
     \<Longrightarrow> sanitize_records D F records st = (Inr records, st)"
proof (induction records)
  case Nil
  then show ?case by simp
next
  case (Cons r records)
  then obtain entries where r: "r = JObj entries"
    by (cases r) (auto simp: is_object_def)
  with Cons.prems have "\<forall>e \<in> set entries. string_free (snd e) \<and> unique_keys (snd e)"
    and "distinct (map fst ([] @ entries))"
    by auto
  then have "sanitize_dict D F entries [] st = ([] @ entries, st)"
    by (rule walk_string_free(3))
  with Cons r show ?case by simp
qed

text \<open>
  Claim C5. A value with no string leaf (numbers, booleans, null and containers, empty or
  not, nested to any depth) comes back from \<open>sanitize_value\<close> equal to itself, keys in
  order and containers in shape, whatever the detectors and the generator are; so does a
  list of such records from \<open>sanitize_records\<close>. The walker's counters and the Replacer
  are left as they were. (\<open>unique_keys\<close> says that the objects are Python dicts.)
\<close>

theorem structure_preserved:
  "(string_free v \<and> unique_keys v \<longrightarrow> sanitize_value D F v field_name st = (v, st))
   \<and> ((\<forall>r \<in> set records. is_object r \<and> string_free r \<and> unique_keys r)
        \<longrightarrow> sanitize_records D F records st = (Inr records, st))"
  using walk_string_free(1) [of v D F field_name st] records_string_free [of records D F st]
  by blast

theorem structure_preserved_witness:
  "sanitize_records [email_detect, phone_detect, card_detect] demo_faker
     [JObj [(''age'', JInt 30), (''active'', JBool True),
            (''scores'', JArr [JInt 1, JFloat (5 / 2), JNull]),
            (''meta'', JObj [(''tags'', JArr []), (''empty'', JObj [])])],
      JObj []]
     (new_sanitizer 0)
   = (Inr [JObj [(''age'', JInt 30), (''active'', JBool True),
            (''scores'', JArr [JInt 1, JFloat (5 / 2), JNull]),
            (''meta'', JObj [(''tags'', JArr []), (''empty'', JObj [])])],
           JObj []],
      new_sanitizer 0)"
proof -
  have "\<forall>r \<in> set [JObj [(''age'', JInt 30), (''active'', JBool True),
            (''scores'', JArr [JInt 1, JFloat (5 / 2), JNull]),
            (''meta'', JObj [(''tags'', JArr []), (''empty'', JObj [])])],
      JObj []]. is_object r \<and> string_free r \<and> unique_keys r"
    by (simp add: is_object_def)
  with structure_preserved show ?thesis by blast
qed

section \<open>Splicing the replacements into a string\<close>

lemma contains_sublist: "contains t w \<longleftrightarrow> sublist w t"
  by (induction t) (auto simp: sublist_Cons_right)

lemma sublist_across:
  assumes "c \<notin> set w" and "sublist w (xs @ c # ys)"
  shows "sublist w xs \<or> sublist w ys"
proof -
  from assms(2) consider "sublist w xs" | "sublist w (c # ys)"
    | w1 w2 where "w = w1 @ w2" "suffix w1 xs" "prefix w2 (c # ys)"
    unfolding sublist_append by blast
  then show ?thesis
  proof cases
    case 1
    then show ?thesis by simp
  next
    case 2
    then have "prefix w (c # ys) \<or> sublist w ys" by (simp add: sublist_Cons_right)
    then show ?thesis
    proof
      assume "prefix w (c # ys)"
      with assms(1) have "w = []" by (cases w) auto
      then show ?thesis by simp
    qed simp
  next
    case 3
    from 3(1,3) assms(1) have "w2 = []" by (cases w2) auto
    with 3(1,2) have "suffix w xs" by simp
    then show ?thesis by (simp add: suffix_imp_sublist)
  qed
qed

lemma example_contains:
  assumes "CHR '' '' \<notin> set w" and "7 < length w"
    and "contains (''Contact '' @ e @ '' or '' @ p) w"
  shows "contains e w \<or> contains p w"
proof -
  have "sublist w (''Contact'' @ CHR '' '' # (e @ CHR '' '' # (''or'' @ CHR '' '' # p)))"
    using assms(3) by (simp add: contains_sublist)
  from sublist_across [OF assms(1) this]
  have "sublist w ''Contact'' \<or> sublist w (e @ CHR '' '' # (''or'' @ CHR '' '' # p))" .
  moreover have "\<not> sublist w ''Contact''"
    using assms(2) sublist_length_le [of w "''Contact''"] by auto
  ultimately have "sublist w (e @ CHR '' '' # (''or'' @ CHR '' '' # p))" by blast
  from sublist_across [OF assms(1) this]
  have "sublist w e \<or> sublist w (''or'' @ CHR '' '' # p)" .
  moreover have "sublist w (''or'' @ CHR '' '' # p) \<Longrightarrow> sublist w ''or'' \<or> sublist w p"
    by (rule sublist_across [OF assms(1)])
  moreover have "\<not> sublist w ''or''"
    using assms(2) sublist_length_le [of w "''or''"] by auto
  ultimately show ?thesis by (auto simp: contains_sublist)
qed

lemma example_detections:
  "email_detect example_text field_name = [example_email]"
  "phone_detect example_text field_name = [example_phone]"
proof -
  have "email_detect example_text '''' = [example_email]" by code_simp
  then show "email_detect example_text field_name = [example_email]"
    by (simp add: email_detect_def)
  have "phone_detect example_text '''' = [example_phone]" by code_simp
  then show "phone_detect example_text field_name = [example_phone]"
    by (simp add: phone_detect_def)
qed

lemma example_sorted: "sort_descending [example_email, example_phone] = [example_phone, example_email]"
  by (simp add: sort_descending_def example_email_def example_phone_def)

lemma example_sanitized:
  "sanitize_string [email_detect, phone_detect] F example_text field_name st =
     (case replace F example_phone (replacer st) of (p, r1) \<Rightarrow>
      case replace F example_email r1 of (e, r2) \<Rightarrow>
        (''Contact '' @ e @ '' or '' @ p,
         st\<lparr>replacer := r2, pii_fields_detected_ctr := pii_fields_detected_ctr st + 1,
            pii_replacements_made_ctr := pii_replacements_made_ctr st + 2\<rparr>))"
proof -
  obtain p r1 where ph: "replace F example_phone (replacer st) = (p, r1)" by fastforce
  obtain e r2 where em: "replace F example_email r1 = (e, r2)" by fastforce
  have s1: "splice_in example_phone p example_text = ''Contact john@example.com or '' @ p"
    by (simp add: splice_in_def example_phone_def example_text_def)
  have s2: "splice_in example_email e (''Contact john@example.com or '' @ p)
      = ''Contact '' @ e @ '' or '' @ p"
    by (simp add: splice_in_def example_email_def)
  have "replace_detections F [example_phone, example_email] example_text
          (st\<lparr>pii_fields_detected_ctr := pii_fields_detected_ctr st + 1\<rparr>)
      = (''Contact '' @ e @ '' or '' @ p,
         st\<lparr>replacer := r2, pii_fields_detected_ctr := pii_fields_detected_ctr st + 1,
            pii_replacements_made_ctr := pii_replacements_made_ctr st + 2\<rparr>)"
    unfolding replace_detections.simps by (simp add: ph em s1 s2 del: append.simps)
  then show ?thesis
    by (simp add: sanitize_string_def example_detections example_sorted ph em)
qed


subsection \<open>The order of the replacements\<close>

lemma sort_descending_sorted:
  "sorted_wrt (\<lambda>a b. start_pos b \<le> start_pos a) (sort_descending ds)"
proof -
  have "sorted (map (\<lambda>d. - start_pos d) (sort_descending ds))"
    by (simp add: sort_descending_def)
  then show ?thesis by (simp add: sorted_map)
qed

lemma sort_descending_stable:
  "filter (\<lambda>d. start_pos d = k) (sort_descending ds) = filter (\<lambda>d. start_pos d = k) ds"
  using sort_key_stable [of "\<lambda>d. - start_pos d" "- k" ds]
  by (simp add: sort_descending_def)

lemma sort_descending_set:
  "set (sort_descending ds) = set ds" "length (sort_descending ds) = length ds"
  by (simp_all add: sort_descending_def)

lemma sorted_wrt_both:
  "sorted_wrt P xs \<Longrightarrow> sorted_wrt Q xs \<Longrightarrow> sorted_wrt (\<lambda>a b. P a b \<and> Q a b) xs"
  by (induction xs) auto

text \<open>Detections with spans that are not empty and do not overlap stand, once sorted,
  each wholly before the one replaced before it.\<close>

lemma sort_descending_chain:
  assumes "\<forall>d \<in> set ds. start_pos d < end_pos d" and "sorted_wrt apart ds"
  shows "sorted_wrt (\<lambda>a b. end_pos b \<le> start_pos a) (sort_descending ds)"
proof -
  have "sorted_wrt apart (sort_descending ds)"
    unfolding sort_descending_def using assms(2) by (rule sorted_wrt_apart_sort)
  with sort_descending_sorted [of ds]
  have "sorted_wrt (\<lambda>a b. start_pos b \<le> start_pos a \<and> apart a b) (sort_descending ds)"
    by (rule sorted_wrt_both)
  then show ?thesis
  proof (rule sorted_wrt_mono_rel [rotated])
    fix a b
    assume "a \<in> set (sort_descending ds)" and "b \<in> set (sort_descending ds)"
      and ab: "start_pos b \<le> start_pos a \<and> apart a b"
    then have "start_pos a < end_pos a" using assms(1) by (simp add: sort_descending_set)
    with ab show "end_pos b \<le> start_pos a" by (auto simp: apart_def)
  qed
qed

subsection \<open>The loop as a fold\<close>

lemma replacements_length: "length (fst (replacements F ds r)) = length ds"
proof (induction ds arbitrary: r)
  case Nil
  then show ?case by simp
next
  case (Cons d ds)
  obtain v r1 where rp: "replace F d r = (v, r1)" by fastforce
  obtain vs r2 where rs: "replacements F ds r1 = (vs, r2)" by fastforce
  from Cons.IH [of r1] show ?case by (simp add: rp rs)
qed

lemma replace_detections_fold:
  "replace_detections F ds t st =
     (foldl (\<lambda>t (d, v). splice_in d v t) t (zip ds (fst (replacements F ds (replacer st)))),
      st\<lparr>replacer := snd (replacements F ds (replacer st)),
         pii_replacements_made_ctr := pii_replacements_made_ctr st + length ds\<rparr>)"
proof (induction ds arbitrary: t st)
  case Nil
  then show ?case by simp
next
  case (Cons d ds)
  obtain v r1 where rp: "replace F d (replacer st) = (v, r1)" by fastforce
  obtain vs r2 where rs: "replacements F ds r1 = (vs, r2)" by fastforce
  show ?case
    by (simp add: rp rs Cons.IH)
qed

lemma sanitize_string_fold:
  "sanitize_string D F tx field_name st =
     (let all_detections = concat (map (\<lambda>detect. detect tx field_name) D);
          ds = sort_descending all_detections
      in if all_detections = [] then (tx, st)
         else (foldl (\<lambda>t (d, v). splice_in d v t) tx (zip ds (fst (replacements F ds (replacer st)))),
               st\<lparr>replacer := snd (replacements F ds (replacer st)),
                  pii_fields_detected_ctr := pii_fields_detected_ctr st + 1,
                  pii_replacements_made_ctr := pii_replacements_made_ctr st + length all_detections\<rparr>))"
  by (simp add: sanitize_string_def Let_def replace_detections_fold sort_descending_set)

subsection \<open>Splicing from the right keeps the offsets\<close>

lemma slice_take: "j \<le> s \<Longrightarrow> slice (take s p) i j = slice p i j"
  by (simp add: slice_def drop_take min_def)

lemma rebuilt_last:
  assumes "\<forall>x \<in> set xs. nat (start_pos (fst x)) \<le> nat (start_pos d)"
  shows "rebuilt p pos (xs @ [(d, v)])
       = rebuilt (take (nat (start_pos d)) p) pos xs @ v @ drop (nat (end_pos d)) p"
  using assms
proof (induction xs arbitrary: pos)
  case Nil
  show ?case by (simp add: slice_def drop_take)
next
  case (Cons x xs)
  obtain d' v' where x: "x = (d', v')" by (cases x)
  have le: "nat (start_pos d') \<le> nat (start_pos d)" using Cons.prems x by simp
  have "\<forall>x \<in> set xs. nat (start_pos (fst x)) \<le> nat (start_pos d)" using Cons.prems by simp
  from Cons.IH [OF this] show ?case
    by (simp add: x slice_take [OF le])
qed

lemma fold_rebuilt:
  assumes "length ds = length vs"
    and "sorted_wrt (\<lambda>a b. end_pos b \<le> start_pos a) ds"
    and "\<forall>d \<in> set ds. 0 \<le> start_pos d \<and> start_pos d < end_pos d \<and> nat (end_pos d) \<le> length p"
  shows "foldl (\<lambda>t (d, v). splice_in d v t) (p @ q) (zip ds vs)
       = rebuilt p 0 (rev (zip ds vs)) @ q"
  using assms
proof (induction ds vs arbitrary: p q rule: list_induct2)
  case Nil
  then show ?case by simp
next
  case (Cons d ds v vs)
  let ?s = "nat (start_pos d)" and ?e = "nat (end_pos d)"
  have d: "0 \<le> start_pos d" "start_pos d < end_pos d" "?e \<le> length p"
    using Cons.prems(2) by simp_all
  then have se: "?s \<le> ?e" "?s \<le> length p" by linarith+
  have splice: "splice_in d v (p @ q) = take ?s p @ (v @ drop ?e p @ q)"
    using d se by (simp add: splice_in_def)
  have chain: "sorted_wrt (\<lambda>a b. end_pos b \<le> start_pos a) ds"
    and before: "\<forall>d' \<in> set ds. end_pos d' \<le> start_pos d"
    using Cons.prems(1) by simp_all
  have spans: "\<forall>d' \<in> set ds. 0 \<le> start_pos d' \<and> start_pos d' < end_pos d'
      \<and> nat (end_pos d') \<le> length (take ?s p)"
  proof
    fix d' assume d': "d' \<in> set ds"
    then have "0 \<le> start_pos d' \<and> start_pos d' < end_pos d'" using Cons.prems(2) by simp
    moreover have "nat (end_pos d') \<le> ?s" using before d' by (simp add: nat_mono)
    ultimately show "0 \<le> start_pos d' \<and> start_pos d' < end_pos d'
      \<and> nat (end_pos d') \<le> length (take ?s p)"
      using se(2) by simp
  qed
  have "\<forall>x \<in> set (rev (zip ds vs)). nat (start_pos (fst x)) \<le> ?s"
  proof
    fix x assume "x \<in> set (rev (zip ds vs))"
    then have "(fst x, snd x) \<in> set (zip ds vs)" by simp
    then have "fst x \<in> set ds" by (rule set_zip_leftD)
    with before Cons.prems(2) have "start_pos (fst x) \<le> start_pos d" by force
    then show "nat (start_pos (fst x)) \<le> ?s" by (simp add: nat_mono)
  qed
  then have last: "rebuilt p 0 (rev (zip ds vs) @ [(d, v)])
      = rebuilt (take ?s p) 0 (rev (zip ds vs)) @ v @ drop ?e p"
    by (rule rebuilt_last)
  have "foldl (\<lambda>t (d, v). splice_in d v t) (p @ q) (zip (d # ds) (v # vs))
      = foldl (\<lambda>t (d, v). splice_in d v t) (take ?s p @ (v @ drop ?e p @ q)) (zip ds vs)"
    by (simp add: splice)
  also have "\<dots> = rebuilt (take ?s p) 0 (rev (zip ds vs)) @ (v @ drop ?e p @ q)"
    using chain spans by (rule Cons.IH)
  finally show ?case by (simp add: last)
qed

lemma sanitize_string_rebuilt:
  assumes "\<forall>d \<in> set (concat (map (\<lambda>detect. detect tx field_name) D)). span_in tx d"
    and "sorted_wrt apart (concat (map (\<lambda>detect. detect tx field_name) D))"
  shows "fst (sanitize_string D F tx field_name st)
       = rebuilt tx 0 (rev (zip (sort_descending (concat (map (\<lambda>detect. detect tx field_name) D)))
           (fst (replacements F (sort_descending (concat (map (\<lambda>detect. detect tx field_name) D)))
                  (replacer st)))))"
proof -
  let ?all = "concat (map (\<lambda>detect. detect tx field_name) D)"
  let ?ds = "sort_descending ?all"
  let ?vs = "fst (replacements F ?ds (replacer st))"
  have spans: "\<forall>d \<in> set ?ds. 0 \<le> start_pos d \<and> start_pos d < end_pos d \<and> nat (end_pos d) \<le> length tx"
    using assms(1) by (auto simp: sort_descending_set span_in_def nat_le_iff)
  have "\<forall>d \<in> set ?all. start_pos d < end_pos d" using assms(1) by (simp add: span_in_def)
  then have chain: "sorted_wrt (\<lambda>a b. end_pos b \<le> start_pos a) ?ds"
    using assms(2) by (rule sort_descending_chain)
  have "foldl (\<lambda>t (d, v). splice_in d v t) (tx @ []) (zip ?ds ?vs) = rebuilt tx 0 (rev (zip ?ds ?vs)) @ []"
    using replacements_length [symmetric] chain spans by (rule fold_rebuilt)
  then have fold: "foldl (\<lambda>t (d, v). splice_in d v t) tx (zip ?ds ?vs) = rebuilt tx 0 (rev (zip ?ds ?vs))"
    by simp
  show ?thesis
  proof (cases "?all = []")
    case True
    have "fst (sanitize_string D F tx field_name st) = tx"
      unfolding sanitize_string_def Let_def True by simp
    moreover have "rebuilt tx 0 (rev (zip ?ds ?vs)) = tx"
      unfolding True sort_descending_def by simp
    ultimately show ?thesis by simp
  next
    case False
    then have "fst (sanitize_string D F tx field_name st)
        = foldl (\<lambda>t (d, v). splice_in d v t) tx (zip ?ds ?vs)"
      by (simp only: sanitize_string_fold Let_def if_False fst_conv)
    then show ?thesis by (simp only: fold)
  qed
qed

lemma example_originals_absent:
  assumes "w \<in> {''john@example.com'', ''555-123-4567''}"
    and "contains (fst (sanitize_string [email_detect, phone_detect] F example_text field_name st)) w"
  shows "contains (fst (replace F example_email (snd (replace F example_phone (replacer st))))) w
       \<or> contains (fst (replace F example_phone (replacer st))) w"
proof -
  obtain p r1 where ph: "replace F example_phone (replacer st) = (p, r1)" by fastforce
  obtain e r2 where em: "replace F example_email r1 = (e, r2)" by fastforce
  have "CHR '' '' \<notin> set w" and "7 < length w" using assms(1) by auto
  moreover have "contains (''Contact '' @ e @ '' or '' @ p) w"
    using assms(2) by (simp add: example_sanitized ph em)
  ultimately have "contains e w \<or> contains p w" by (rule example_contains)
  then show ?thesis by (simp add: ph em)
qed

text \<open>
  Claim C9, as amended. For every text, every list of detectors and every state of the
  walker: the detections of all detectors are sorted by \<open>start_pos\<close> descending, those
  with the same start in the order in which they were found; when there is none the text
  comes back as it is; otherwise each detection, in that order, gets its replacement from
  the Replacer and is spliced into the string, through its span when the span is valid and
  through a first-occurrence replace when it is not; one field and as many replacements as
  there are detections are counted. When the spans lie inside the text and do not overlap,
  the string rebuilt is the text with each span replaced by its replacement and everything
  between the spans kept: splicing from the right leaves the offsets of the detections not
  yet replaced as they were. On \<open>Contact john@example.com or 555-123-4567\<close> the email and
  phone detectors give two detections, and the string rebuilt is \<open>Contact \<close>, the
  replacement of the email, \<open> or \<close>, the replacement of the phone number: both
  replacements stand in the order of the originals, and an original value occurs in the
  result only if one of the two replacements contains it.
\<close>

theorem multi_type_splicing:
  "sorted_wrt (\<lambda>a b. start_pos b \<le> start_pos a) (sort_descending ds)
   \<and> (\<forall>k. filter (\<lambda>d. start_pos d = k) (sort_descending ds) = filter (\<lambda>d. start_pos d = k) ds)
   \<and> (0 \<le> start_pos d \<and> start_pos d < end_pos d \<longrightarrow>
        splice_in d v t = take (nat (start_pos d)) t @ v @ drop (nat (end_pos d)) t)
   \<and> (\<not> (0 \<le> start_pos d \<and> start_pos d < end_pos d) \<longrightarrow>
        splice_in d v t = replace_first (original_value d) v t)
   \<and> sanitize_string D F tx field_name st =
        (let all_detections = concat (map (\<lambda>detect. detect tx field_name) D);
             sorted_detections = sort_descending all_detections
         in if all_detections = [] then (tx, st)
            else (foldl (\<lambda>t (d, v). splice_in d v t) tx
                    (zip sorted_detections (fst (replacements F sorted_detections (replacer st)))),
                  st\<lparr>replacer := snd (replacements F sorted_detections (replacer st)),
                     pii_fields_detected_ctr := pii_fields_detected_ctr st + 1,
                     pii_replacements_made_ctr :=
                       pii_replacements_made_ctr st + length all_detections\<rparr>))
   \<and> ((\<forall>d \<in> set (concat (map (\<lambda>detect. detect tx field_name) D)). span_in tx d)
        \<and> sorted_wrt apart (concat (map (\<lambda>detect. detect tx field_name) D))
      \<longrightarrow> fst (sanitize_string D F tx field_name st)
           = rebuilt tx 0
               (rev (zip (sort_descending (concat (map (\<lambda>detect. detect tx field_name) D)))
                  (fst (replacements F
                     (sort_descending (concat (map (\<lambda>detect. detect tx field_name) D)))
                     (replacer st))))))
   \<and> concat (map (\<lambda>detect. detect example_text field_name) [email_detect, phone_detect])
        = [example_email, example_phone]
   \<and> sanitize_string [email_detect, phone_detect] F example_text field_name st =
       (case replace F example_phone (replacer st) of (p, r1) \<Rightarrow>
        case replace F example_email r1 of (e, r2) \<Rightarrow>
          (''Contact '' @ e @ '' or '' @ p,
           st\<lparr>replacer := r2, pii_fields_detected_ctr := pii_fields_detected_ctr st + 1,
              pii_replacements_made_ctr := pii_replacements_made_ctr st + 2\<rparr>))
   \<and> (\<forall>w \<in> {''john@example.com'', ''555-123-4567''}.
        contains (fst (sanitize_string [email_detect, phone_detect] F example_text field_name st)) w
        \<longrightarrow> contains (fst (replace F example_email (snd (replace F example_phone (replacer st))))) w
            \<or> contains (fst (replace F example_phone (replacer st))) w)"
proof -
  have "splice_in d v t =
      (if 0 \<le> start_pos d \<and> start_pos d < end_pos d
       then take (nat (start_pos d)) t @ v @ drop (nat (end_pos d)) t
       else replace_first (original_value d) v t)"
    by (simp add: splice_in_def)
  then have splice: "0 \<le> start_pos d \<and> start_pos d < end_pos d \<longrightarrow>
        splice_in d v t = take (nat (start_pos d)) t @ v @ drop (nat (end_pos d)) t"
    "\<not> (0 \<le> start_pos d \<and> start_pos d < end_pos d) \<longrightarrow>
        splice_in d v t = replace_first (original_value d) v t"
    by simp_all
  have found: "concat (map (\<lambda>detect. detect example_text field_name) [email_detect, phone_detect])
        = [example_email, example_phone]"
    by (simp add: example_detections)
  have stable: "\<forall>k. filter (\<lambda>d. start_pos d = k) (sort_descending ds) = filter (\<lambda>d. start_pos d = k) ds"
    by (simp add: sort_descending_stable)
  have absent: "\<forall>w \<in> {''john@example.com'', ''555-123-4567''}.
        contains (fst (sanitize_string [email_detect, phone_detect] F example_text field_name st)) w
        \<longrightarrow> contains (fst (replace F example_email (snd (replace F example_phone (replacer st))))) w
            \<or> contains (fst (replace F example_phone (replacer st))) w"
    using example_originals_absent [of _ F field_name st] by blast
  have rebuilt: "(\<forall>d \<in> set (concat (map (\<lambda>detect. detect tx field_name) D)). span_in tx d)
        \<and> sorted_wrt apart (concat (map (\<lambda>detect. detect tx field_name) D))
      \<longrightarrow> fst (sanitize_string D F tx field_name st)
           = rebuilt tx 0
               (rev (zip (sort_descending (concat (map (\<lambda>detect. detect tx field_name) D)))
                  (fst (replacements F
                     (sort_descending (concat (map (\<lambda>detect. detect tx field_name) D)))
                     (replacer st)))))"
    using sanitize_string_rebuilt [of tx field_name D F st] by blast
  from sort_descending_sorted [of ds] stable splice sanitize_string_fold [of D F tx field_name st]
    rebuilt found example_sanitized [of F field_name st] absent
  show ?thesis by (intro conjI)
qed

theorem multi_type_splicing_witness:
  "fst (sanitize_string [email_detect, phone_detect] demo_faker example_text '''' (new_sanitizer 0))
     = ''Contact user1@example.org or 202-555-0110''
   \<and> rebuilt example_text 0
        [(example_email, ''user1@example.org''), (example_phone, ''202-555-0110'')]
     = ''Contact user1@example.org or 202-555-0110''
   \<and> \<not> contains (fst (sanitize_string [email_detect, phone_detect] demo_faker example_text ''''
          (new_sanitizer 0))) ''john@example.com''
   \<and> \<not> contains (fst (sanitize_string [email_detect, phone_detect] demo_faker example_text ''''
          (new_sanitizer 0))) ''555-123-4567''
   \<and> map start_pos (email_detect ''To ann@a.org, bob@b.org and cy@c.org'' '''') = [3, 14, 28]
   \<and> fst (sanitize_string [email_detect] demo_faker ''To ann@a.org, bob@b.org and cy@c.org'' ''''
        (new_sanitizer 0))
     = ''To user2@example.org, user1@example.org and user0@example.org''
   \<and> pii_replacements_made_ctr
        (snd (sanitize_string [email_detect] demo_faker ''To ann@a.org, bob@b.org and cy@c.org'' ''''
           (new_sanitizer 0))) = 3"
proof -
  let ?st = "new_sanitizer (0::nat)"
  let ?D = "[email_detect, phone_detect]"
  let ?p = "fst (replace demo_faker example_phone (replacer ?st))"
  let ?e = "fst (replace demo_faker example_email (snd (replace demo_faker example_phone (replacer ?st))))"
  have p: "?p = ''202-555-0110''" and e: "?e = ''user1@example.org''"
    by code_simp+
  have absent: "\<not> contains ''202-555-0110'' ''john@example.com''"
    "\<not> contains ''user1@example.org'' ''john@example.com''"
    "\<not> contains ''202-555-0110'' ''555-123-4567''"
    "\<not> contains ''user1@example.org'' ''555-123-4567''"
    by code_simp+
  note inst = multi_type_splicing [where D = ?D and F = demo_faker and tx = example_text
      and field_name = "''''" and st = ?st]
  have spans: "\<forall>d \<in> set (concat (map (\<lambda>detect. detect example_text '''') ?D)). span_in example_text d"
    by code_simp
  have apart: "sorted_wrt apart (concat (map (\<lambda>detect. detect example_text '''') ?D))"
    by code_simp
  from inst spans apart
  have "fst (sanitize_string ?D demo_faker example_text '''' ?st)
      = rebuilt example_text 0
          (rev (zip (sort_descending (concat (map (\<lambda>detect. detect example_text '''') ?D)))
             (fst (replacements demo_faker
                (sort_descending (concat (map (\<lambda>detect. detect example_text '''') ?D)))
                (replacer ?st)))))"
    by blast
  moreover have "rebuilt example_text 0
          (rev (zip (sort_descending (concat (map (\<lambda>detect. detect example_text '''') ?D)))
             (fst (replacements demo_faker
                (sort_descending (concat (map (\<lambda>detect. detect example_text '''') ?D)))
                (replacer ?st)))))
      = ''Contact user1@example.org or 202-555-0110''"
    by code_simp
  ultimately have out: "fst (sanitize_string ?D demo_faker example_text '''' ?st)
      = ''Contact user1@example.org or 202-555-0110''"
    by (rule trans)
  have pairs: "rebuilt example_text 0
        [(example_email, ''user1@example.org''), (example_phone, ''202-555-0110'')]
     = ''Contact user1@example.org or 202-555-0110''"
    by code_simp
  from inst have only: "\<forall>w \<in> {''john@example.com'', ''555-123-4567''}.
        contains (fst (sanitize_string ?D demo_faker example_text '''' ?st)) w
        \<longrightarrow> contains ?e w \<or> contains ?p w"
    by blast
  have no_email: "\<not> contains (fst (sanitize_string ?D demo_faker example_text '''' ?st))
          ''john@example.com''"
    using only absent(1,2) by (simp only: p e) blast
  have no_phone: "\<not> contains (fst (sanitize_string ?D demo_faker example_text '''' ?st))
          ''555-123-4567''"
    using only absent(3,4) by (simp only: p e) blast
  let ?tx = "''To ann@a.org, bob@b.org and cy@c.org''"
  note three = multi_type_splicing [where D = "[email_detect]" and F = demo_faker and tx = ?tx
      and field_name = "''''" and st = ?st]
  have starts: "map start_pos (email_detect ?tx '''') = [3, 14, 28]"
    by code_simp
  have spans3: "\<forall>d \<in> set (concat (map (\<lambda>detect. detect ?tx '''') [email_detect])). span_in ?tx d"
    by code_simp
  have apart3: "sorted_wrt apart (concat (map (\<lambda>detect. detect ?tx '''') [email_detect]))"
    by code_simp
  from three spans3 apart3
  have "fst (sanitize_string [email_detect] demo_faker ?tx '''' ?st)
      = rebuilt ?tx 0
          (rev (zip (sort_descending (concat (map (\<lambda>detect. detect ?tx '''') [email_detect])))
             (fst (replacements demo_faker
                (sort_descending (concat (map (\<lambda>detect. detect ?tx '''') [email_detect])))
                (replacer ?st)))))"
    by blast
  moreover have "rebuilt ?tx 0
          (rev (zip (sort_descending (concat (map (\<lambda>detect. detect ?tx '''') [email_detect])))
             (fst (replacements demo_faker
                (sort_descending (concat (map (\<lambda>detect. detect ?tx '''') [email_detect])))
                (replacer ?st)))))
      = ''To user2@example.org, user1@example.org and user0@example.org''"
    by code_simp
  ultimately have out3: "fst (sanitize_string [email_detect] demo_faker ?tx '''' ?st)
      = ''To user2@example.org, user1@example.org and user0@example.org''"
    by (rule trans)
  have count3: "pii_replacements_made_ctr (snd (sanitize_string [email_detect] demo_faker ?tx '''' ?st)) = 3"
    by code_simp
  from out pairs no_email no_phone starts out3 count3 show ?thesis by blast
qed

text \<open>As stated, with a result that never contains an original value, the claim fails for
  a generator that draws the phone number \<open>555-123-4567\<close>: nothing in the Replacer
  keeps a fake apart from the value it replaces.\<close>

theorem originals_absent_counterexample:
  "fst (sanitize_string [email_detect, phone_detect] repeating_faker example_text '''' (new_sanitizer 0))
     = ''Contact user1@example.org or 555-123-4567''
   \<and> contains (fst (sanitize_string [email_detect, phone_detect] repeating_faker example_text ''''
        (new_sanitizer 0))) ''555-123-4567''"
  by code_simp

section \<open>Failed runs\<close>

lemma reports_failure_failure: "m \<noteq> [] \<Longrightarrow> reports_failure (failure m)"
  by (simp add: reports_failure_def failure_def)

lemma read_error_shape:
  assumes "read_json_file w input_path = Inl e"
  shows "case e of FileNotFoundError m \<Rightarrow> m \<noteq> [] | JSONParseError m \<Rightarrow> m \<noteq> [] | _ \<Rightarrow> False"
proof (cases "input w input_path")
  case (Parsed v)
  with assms show ?thesis
    by (cases v) (clarsimp simp: read_json_file_def)+
qed (use assms in \<open>clarsimp simp: read_json_file_def mk_JSONParseError_def\<close>)+

lemma read_error_reported:
  assumes "read_json_file w input_path = Inl e"
  shows "reports_failure (handle e)"
  using read_error_shape [OF assms]
  by (cases e) (simp_all add: handle_def reports_failure_failure)

lemma sanitize_records_error:
  "sanitize_records D F records st = (Inl e, st') \<Longrightarrow> \<exists>m. m \<noteq> [] \<and> e = AttributeError m"
proof (induction records arbitrary: st)
  case Nil
  then show ?case by simp
next
  case (Cons r records)
  show ?case
  proof (cases "is_object r")
    case False
    with Cons.prems show ?thesis
      by (cases r) (auto simp: is_object_def)
  next
    case True
    then obtain entries where r: "r = JObj entries"
      by (cases r) (auto simp: is_object_def)
    obtain d st1 where d: "sanitize_dict D F entries [] st = (d, st1)" by fastforce
    obtain x st2 where rest: "sanitize_records D F records st1 = (x, st2)" by fastforce
    from Cons.prems r d rest have "x = Inl e \<and> st2 = st'"
      by (cases x) simp_all
    with rest have "sanitize_records D F records st1 = (Inl e, st')" by simp
    then show ?thesis by (rule Cons.IH)
  qed
qed

lemma internal_error_reported:
  assumes "sanitize_records D F records st = (Inl e, st')"
  shows "reports_failure (handle e)"
proof -
  from sanitize_records_error [OF assms] obtain m where "e = AttributeError m" by blast
  then show ?thesis by (simp add: handle_def reports_failure_failure)
qed

lemma wrap_write_fault_message:
  "\<exists>m. wrap_write_fault f output_path = InvalidOutputPathError m \<and> m \<noteq> []"
  by (cases f) (simp_all add: wrap_write_fault_def)

lemma write_cases:
  assumes "write_json_file w output_path data = (Some e, w')"
  obtains (on_mkdir) f where "mkdir_fault w output_path = Some f" "e = wrap_write_fault f output_path"
      "w' = w"
  | (on_open) f where "mkdir_fault w output_path = None" "open_fault w output_path = Some f"
      "e = wrap_write_fault f output_path" "w' = w"
  | (on_dump) f n where "mkdir_fault w output_path = None" "open_fault w output_path = None"
      "dump_fault w output_path = Some (f, n)" "e = wrap_write_fault f output_path"
      "w' = w\<lparr>disk := (disk w)(output_path \<mapsto> take n (dumps w data))\<rparr>"
proof (cases "mkdir_fault w output_path")
  case (Some f)
  with assms have "e = wrap_write_fault f output_path" "w' = w"
    by (simp_all add: write_json_file_def)
  with Some show ?thesis by (rule on_mkdir)
next
  case None
  note no_mkdir = this
  show ?thesis
  proof (cases "open_fault w output_path")
    case (Some f)
    with assms no_mkdir have "e = wrap_write_fault f output_path" "w' = w"
      by (simp_all add: write_json_file_def)
    with no_mkdir Some show ?thesis by (rule on_open)
  next
    case None
    note no_open = this
    show ?thesis
    proof (cases "dump_fault w output_path")
      case None
      with assms no_mkdir no_open have False by (simp add: write_json_file_def)
      then show ?thesis ..
    next
      case (Some fn)
      obtain f n where fn: "fn = (f, n)" by (cases fn)
      with Some have d: "dump_fault w output_path = Some (f, n)" by simp
      with assms no_mkdir no_open have "e = wrap_write_fault f output_path"
        "w' = w\<lparr>disk := (disk w)(output_path \<mapsto> take n (dumps w data))\<rparr>"
        by (simp_all add: write_json_file_def)
      with no_mkdir no_open d show ?thesis by (rule on_dump)
    qed
  qed
qed

lemma write_error_reported:
  assumes "write_json_file w output_path data = (Some e, w')"
  shows "reports_failure (handle e)"
proof -
  from assms obtain f where "e = wrap_write_fault f output_path"
    by (cases rule: write_cases) blast+
  with wrap_write_fault_message [of f output_path] obtain m where
    "e = InvalidOutputPathError m" "m \<noteq> []" by auto
  then show ?thesis by (simp add: handle_def reports_failure_failure)
qed

lemma sanitize_file_cases:
  fixes st :: "'g Sanitizer"
  defines "st0 \<equiv> st\<lparr>pii_fields_detected_ctr := 0, pii_replacements_made_ctr := 0\<rparr>"
  obtains (read_fails) e where "read_json_file w input_path = Inl e"
      "sanitize_file D F w input_path output_path st = (handle e, w, st0)"
  | (walk_fails) records e st1 where "read_json_file w input_path = Inr records"
      "sanitize_records D F records st0 = (Inl e, st1)"
      "sanitize_file D F w input_path output_path st = (handle e, w, st1)"
  | (write_fails) records san st1 e w1 where "read_json_file w input_path = Inr records"
      "sanitize_records D F records st0 = (Inr san, st1)"
      "write_json_file w output_path san = (Some e, w1)"
      "sanitize_file D F w input_path output_path st = (handle e, w1, st1)"
  | (succeeds) records san st1 w1 where "read_json_file w input_path = Inr records"
      "sanitize_records D F records st0 = (Inr san, st1)"
      "write_json_file w output_path san = (None, w1)"
      "success (fst (sanitize_file D F w input_path output_path st))"
proof (cases "read_json_file w input_path")
  case (Inl e)
  then have "sanitize_file D F w input_path output_path st = (handle e, w, st0)"
    by (simp add: sanitize_file_def st0_def)
  with Inl show ?thesis by (rule read_fails)
next
  case (Inr records)
  note rd = this
  obtain x st1 where walk: "sanitize_records D F records st0 = (x, st1)" by fastforce
  show ?thesis
  proof (cases x)
    case (Inl e)
    with rd walk have "sanitize_file D F w input_path output_path st = (handle e, w, st1)"
      by (simp add: sanitize_file_def st0_def)
    with rd walk Inl show ?thesis by (auto intro: walk_fails)
  next
    case (Inr san)
    note sn = this
    obtain y w1 where wr: "write_json_file w output_path san = (y, w1)" by fastforce
    show ?thesis
    proof (cases y)
      case None
      with rd walk sn wr have "success (fst (sanitize_file D F w input_path output_path st))"
        by (simp add: sanitize_file_def st0_def)
      with rd walk sn wr None show ?thesis by (auto intro: succeeds)
    next
      case (Some e)
      with rd walk sn wr have "sanitize_file D F w input_path output_path st = (handle e, w1, st1)"
        by (simp add: sanitize_file_def st0_def)
      with rd walk sn wr Some show ?thesis by (auto intro: write_fails)
    qed
  qed
qed

text \<open>The run, stage by stage.\<close>

lemma read_succeeds_iff:
  "(\<exists>records. read_json_file w input_path = Inr records)
     \<longleftrightarrow> (\<exists>records. input w input_path = Parsed (JArr records))"
proof (cases "input w input_path")
  case (Parsed v)
  then show ?thesis by (cases v) (simp_all add: read_json_file_def)
qed (simp_all add: read_json_file_def)

lemma run_read_fails:
  assumes "read_json_file w input_path = Inl e"
  shows "sanitize_file D F w input_path output_path st
     = (handle e, w, st\<lparr>pii_fields_detected_ctr := 0, pii_replacements_made_ctr := 0\<rparr>)"
  using assms by (simp add: sanitize_file_def)

lemma run_walk_fails:
  assumes "read_json_file w input_path = Inr records"
    and "sanitize_records D F records
           (st\<lparr>pii_fields_detected_ctr := 0, pii_replacements_made_ctr := 0\<rparr>) = (Inl e, st1)"
  shows "sanitize_file D F w input_path output_path st = (handle e, w, st1)"
  using assms by (simp add: sanitize_file_def)

lemma run_writes:
  assumes "read_json_file w input_path = Inr records"
    and "sanitize_records D F records
           (st\<lparr>pii_fields_detected_ctr := 0, pii_replacements_made_ctr := 0\<rparr>) = (Inr san, st1)"
  shows "mkdir_fault w output_path = Some f \<Longrightarrow>
           sanitize_file D F w input_path output_path st
             = (handle (wrap_write_fault f output_path), w, st1)"
    and "mkdir_fault w output_path = None \<Longrightarrow> open_fault w output_path = Some f \<Longrightarrow>
           sanitize_file D F w input_path output_path st
             = (handle (wrap_write_fault f output_path), w, st1)"
    and "mkdir_fault w output_path = None \<Longrightarrow> open_fault w output_path = None \<Longrightarrow>
         dump_fault w output_path = Some (f, n) \<Longrightarrow>
           sanitize_file D F w input_path output_path st
             = (handle (wrap_write_fault f output_path),
                w\<lparr>disk := (disk w)(output_path \<mapsto> take n (dumps w san))\<rparr>, st1)"
    and "mkdir_fault w output_path = None \<Longrightarrow> open_fault w output_path = None \<Longrightarrow>
         dump_fault w output_path = None \<Longrightarrow>
           sanitize_file D F w input_path output_path st
             = (\<lparr>success = True, records_processed = length records,
                 pii_fields_detected = pii_fields_detected_ctr st1,
                 pii_replacements_made = pii_replacements_made_ctr st1,
                 error_message = None\<rparr>,
                w\<lparr>disk := (disk w)(output_path \<mapsto> dumps w san)\<rparr>, st1)"
  using assms by (simp_all add: sanitize_file_def write_json_file_def)

lemma write_fault_reported: "reports_failure (handle (wrap_write_fault f output_path))"
  using wrap_write_fault_message [of f output_path]
  by (auto simp: handle_def reports_failure_failure)

lemma failed_run_reported:
  assumes "\<not> success (fst (sanitize_file D F w input_path output_path st))"
  shows "reports_failure (fst (sanitize_file D F w input_path output_path st))"
proof (cases rule: sanitize_file_cases [of w input_path D F output_path st])
  case (read_fails e)
  from read_error_reported [OF read_fails(1)] read_fails(2) show ?thesis by simp
next
  case (walk_fails records e st1)
  from internal_error_reported [OF walk_fails(2)] walk_fails(3) show ?thesis by simp
next
  case (write_fails records san st1 e w1)
  from write_error_reported [OF write_fails(3)] write_fails(4) show ?thesis by simp
next
  case (succeeds records san st1 w1)
  with assms show ?thesis by simp
qed

text \<open>
  Claim C6, as amended. The input is read as a list of records exactly when it parses to a
  JSON array. A run that fails on the input, or in the walk (a record that is not an
  object), returns the failure result of the exception and leaves the file system as it
  was. Let the walk have returned the sanitized records \<open>san\<close>. When \<open>mkdir\<close> or \<open>open\<close>
  raises, the run returns the failure result and the file system is as it was; when
  \<open>json.dump\<close> raises after \<open>n\<close> characters, the run returns the failure result and the
  output file holds the first \<open>n\<close> characters of the rendering of \<open>san\<close>; when nothing
  raises, the run succeeds, counts the records read, and the output file holds the
  rendering of \<open>san\<close>. Every failure result has \<open>success = False\<close>, the three counters at
  zero and an error message that is not empty, and every run that does not succeed returns
  one.
\<close>

theorem failed_run:
  "((\<exists>records. read_json_file w input_path = Inr records)
       \<longleftrightarrow> (\<exists>records. input w input_path = Parsed (JArr records)))
   \<and> (\<forall>e. read_json_file w input_path = Inl e \<longrightarrow>
          reports_failure (handle e)
          \<and> sanitize_file D F w input_path output_path st
               = (handle e, w, st\<lparr>pii_fields_detected_ctr := 0, pii_replacements_made_ctr := 0\<rparr>))
   \<and> (\<forall>records e st1.
          read_json_file w input_path = Inr records
          \<and> sanitize_records D F records
               (st\<lparr>pii_fields_detected_ctr := 0, pii_replacements_made_ctr := 0\<rparr>) = (Inl e, st1)
          \<longrightarrow> reports_failure (handle e)
              \<and> sanitize_file D F w input_path output_path st = (handle e, w, st1))
   \<and> (\<forall>records san st1.
          read_json_file w input_path = Inr records
          \<and> sanitize_records D F records
               (st\<lparr>pii_fields_detected_ctr := 0, pii_replacements_made_ctr := 0\<rparr>) = (Inr san, st1)
          \<longrightarrow>
            (\<forall>f. mkdir_fault w output_path = Some f
                   \<or> (mkdir_fault w output_path = None \<and> open_fault w output_path = Some f)
               \<longrightarrow> reports_failure (handle (wrap_write_fault f output_path))
                   \<and> sanitize_file D F w input_path output_path st
                        = (handle (wrap_write_fault f output_path), w, st1))
          \<and> (\<forall>f n. mkdir_fault w output_path = None \<and> open_fault w output_path = None
                   \<and> dump_fault w output_path = Some (f, n)
               \<longrightarrow> reports_failure (handle (wrap_write_fault f output_path))
                   \<and> sanitize_file D F w input_path output_path st
                        = (handle (wrap_write_fault f output_path),
                           w\<lparr>disk := (disk w)(output_path \<mapsto> take n (dumps w san))\<rparr>, st1))
          \<and> (mkdir_fault w output_path = None \<and> open_fault w output_path = None
                   \<and> dump_fault w output_path = None
               \<longrightarrow> sanitize_file D F w input_path output_path st
                        = (\<lparr>success = True, records_processed = length records,
                            pii_fields_detected = pii_fields_detected_ctr st1,
                            pii_replacements_made = pii_replacements_made_ctr st1,
                            error_message = None\<rparr>,
                           w\<lparr>disk := (disk w)(output_path \<mapsto> dumps w san)\<rparr>, st1)))
   \<and> (\<not> success (fst (sanitize_file D F w input_path output_path st))
        \<longrightarrow> reports_failure (fst (sanitize_file D F w input_path output_path st)))"
proof (intro conjI allI impI)
  show "(\<exists>records. read_json_file w input_path = Inr records)
       \<longleftrightarrow> (\<exists>records. input w input_path = Parsed (JArr records))"
    by (rule read_succeeds_iff)
next
  fix e assume "read_json_file w input_path = Inl e"
  then show "reports_failure (handle e)" by (rule read_error_reported)
next
  fix e assume "read_json_file w input_path = Inl e"
  then show "sanitize_file D F w input_path output_path st
      = (handle e, w, st\<lparr>pii_fields_detected_ctr := 0, pii_replacements_made_ctr := 0\<rparr>)"
    by (rule run_read_fails)
next
  fix records e st1
  assume "read_json_file w input_path = Inr records
          \<and> sanitize_records D F records
               (st\<lparr>pii_fields_detected_ctr := 0, pii_replacements_made_ctr := 0\<rparr>) = (Inl e, st1)"
  then show "reports_failure (handle e)" using internal_error_reported by blast
next
  fix records e st1
  assume "read_json_file w input_path = Inr records
          \<and> sanitize_records D F records
               (st\<lparr>pii_fields_detected_ctr := 0, pii_replacements_made_ctr := 0\<rparr>) = (Inl e, st1)"
  then show "sanitize_file D F w input_path output_path st = (handle e, w, st1)"
    using run_walk_fails by blast
next
  fix records san st1 f
  show "reports_failure (handle (wrap_write_fault f output_path))"
    by (rule write_fault_reported)
next
  fix records san st1 f
  assume walk: "read_json_file w input_path = Inr records
          \<and> sanitize_records D F records
               (st\<lparr>pii_fields_detected_ctr := 0, pii_replacements_made_ctr := 0\<rparr>) = (Inr san, st1)"
    and fault: "mkdir_fault w output_path = Some f
                   \<or> (mkdir_fault w output_path = None \<and> open_fault w output_path = Some f)"
  from walk have rd: "read_json_file w input_path = Inr records"
    and wk: "sanitize_records D F records
               (st\<lparr>pii_fields_detected_ctr := 0, pii_replacements_made_ctr := 0\<rparr>) = (Inr san, st1)"
    by simp_all
  from fault show "sanitize_file D F w input_path output_path st
                        = (handle (wrap_write_fault f output_path), w, st1)"
    using run_writes(1) [OF rd wk] run_writes(2) [OF rd wk] by blast
next
  fix records san st1 f n
  show "reports_failure (handle (wrap_write_fault f output_path))"
    by (rule write_fault_reported)
next
  fix records san st1 f n
  assume walk: "read_json_file w input_path = Inr records
          \<and> sanitize_records D F records
               (st\<lparr>pii_fields_detected_ctr := 0, pii_replacements_made_ctr := 0\<rparr>) = (Inr san, st1)"
    and fault: "mkdir_fault w output_path = None \<and> open_fault w output_path = None
                   \<and> dump_fault w output_path = Some (f, n)"
  from walk have rd: "read_json_file w input_path = Inr records"
    and wk: "sanitize_records D F records
               (st\<lparr>pii_fields_detected_ctr := 0, pii_replacements_made_ctr := 0\<rparr>) = (Inr san, st1)"
    by simp_all
  from fault show "sanitize_file D F w input_path output_path st
                        = (handle (wrap_write_fault f output_path),
                           w\<lparr>disk := (disk w)(output_path \<mapsto> take n (dumps w san))\<rparr>, st1)"
    using run_writes(3) [OF rd wk] by blast
next
  fix records san st1
  assume walk: "read_json_file w input_path = Inr records
          \<and> sanitize_records D F records
               (st\<lparr>pii_fields_detected_ctr := 0, pii_replacements_made_ctr := 0\<rparr>) = (Inr san, st1)"
    and fault: "mkdir_fault w output_path = None \<and> open_fault w output_path = None
                   \<and> dump_fault w output_path = None"
  from walk have rd: "read_json_file w input_path = Inr records"
    and wk: "sanitize_records D F records
               (st\<lparr>pii_fields_detected_ctr := 0, pii_replacements_made_ctr := 0\<rparr>) = (Inr san, st1)"
    by simp_all
  from fault show "sanitize_file D F w input_path output_path st
                        = (\<lparr>success = True, records_processed = length records,
                            pii_fields_detected = pii_fields_detected_ctr st1,
                            pii_replacements_made = pii_replacements_made_ctr st1,
                            error_message = None\<rparr>,
                           w\<lparr>disk := (disk w)(output_path \<mapsto> dumps w san)\<rparr>, st1)"
    using run_writes(4) [OF rd wk] by blast
next
  assume "\<not> success (fst (sanitize_file D F w input_path output_path st))"
  then show "reports_failure (fst (sanitize_file D F w input_path output_path st))"
    by (rule failed_run_reported)
qed

theorem failed_run_witness:
  "sanitize_file [email_detect, phone_detect, card_detect] demo_faker demo_io
      ''broken.json'' ''clean.json'' (new_sanitizer 0)
     = (failure ''Invalid JSON: Expecting property name enclosed in double quotes at line 1, column 2'',
        demo_io, new_sanitizer 0)
   \<and> reports_failure
        (failure ''Invalid JSON: Expecting property name enclosed in double quotes at line 1, column 2'')
   \<and> sanitize_file [email_detect, phone_detect, card_detect] demo_faker demo_io
      ''missing.json'' ''clean.json'' (new_sanitizer 0)
     = (failure ''Input file not found: missing.json'', demo_io, new_sanitizer 0)
   \<and> sanitize_file [email_detect, phone_detect, card_detect] demo_faker demo_io
      ''object.json'' ''clean.json'' (new_sanitizer 0)
     = (failure ''Error reading file: JSON root must be an array at line 1, column 1'',
        demo_io, new_sanitizer 0)
   \<and> sanitize_file [email_detect, phone_detect, card_detect] demo_faker demo_io
      ''numbers.json'' ''clean.json'' (new_sanitizer 0)
     = (failure (''Unexpected error during sanitization: '' @ [CHR 0x27] @ ''int'' @ [CHR 0x27]
                   @ '' object has no attribute '' @ [CHR 0x27] @ ''items'' @ [CHR 0x27]),
        demo_io, new_sanitizer 0)
   \<and> sanitize_file [email_detect, phone_detect, card_detect] demo_faker demo_io
      ''in.json'' ''/proc/out.json'' (new_sanitizer 0)
     = (failure ''Permission denied writing to: /proc/out.json'', demo_io, new_sanitizer 0)
   \<and> sanitize_file [email_detect, phone_detect, card_detect] demo_faker demo_io
      ''in.json'' ''clean.json'' (new_sanitizer 0)
     = (\<lparr>success = True, records_processed = 1, pii_fields_detected = 0,
         pii_replacements_made = 0, error_message = None\<rparr>,
        demo_io\<lparr>disk := (disk demo_io)(''clean.json'' \<mapsto> demo_rendering)\<rparr>, new_sanitizer 0)"
proof -
  let ?D = "[email_detect, phone_detect, card_detect]"
  let ?st = "new_sanitizer (0::nat)"
  have st0: "?st\<lparr>pii_fields_detected_ctr := 0, pii_replacements_made_ctr := 0\<rparr> = ?st"
    by (simp add: new_sanitizer_def)
  have reads:
    "read_json_file demo_io ''broken.json''
       = Inl (JSONParseError ''Invalid JSON: Expecting property name enclosed in double quotes at line 1, column 2'')"
    "read_json_file demo_io ''missing.json''
       = Inl (FileNotFoundError ''Input file not found: missing.json'')"
    "read_json_file demo_io ''object.json''
       = Inl (FileNotFoundError ''Error reading file: JSON root must be an array at line 1, column 1'')"
    "read_json_file demo_io ''numbers.json'' = Inr [JInt 1]"
    "read_json_file demo_io ''in.json'' = Inr [JObj [(''id'', JInt 7)]]"
    by code_simp+
  have handles:
    "handle (JSONParseError ''Invalid JSON: Expecting property name enclosed in double quotes at line 1, column 2'')
       = failure ''Invalid JSON: Expecting property name enclosed in double quotes at line 1, column 2''"
    "handle (FileNotFoundError ''Input file not found: missing.json'')
       = failure ''Input file not found: missing.json''"
    "handle (FileNotFoundError ''Error reading file: JSON root must be an array at line 1, column 1'')
       = failure ''Error reading file: JSON root must be an array at line 1, column 1''"
    "handle (wrap_write_fault PermissionFault ''/proc/out.json'')
       = failure ''Permission denied writing to: /proc/out.json''"
    by (simp_all add: handle_def wrap_write_fault_def)
  have broken: "sanitize_file ?D demo_faker demo_io ''broken.json'' ''clean.json'' ?st
      = (failure ''Invalid JSON: Expecting property name enclosed in double quotes at line 1, column 2'',
         demo_io, ?st)"
    and broken_reported: "reports_failure
        (failure ''Invalid JSON: Expecting property name enclosed in double quotes at line 1, column 2'')"
    using failed_run [where w = demo_io and input_path = "''broken.json''" and D = ?D
        and F = demo_faker and output_path = "''clean.json''" and st = ?st]
      reads(1) unfolding st0 handles(1) [symmetric] by blast+
  have missing: "sanitize_file ?D demo_faker demo_io ''missing.json'' ''clean.json'' ?st
      = (failure ''Input file not found: missing.json'', demo_io, ?st)"
    using failed_run [where w = demo_io and input_path = "''missing.json''" and D = ?D
        and F = demo_faker and output_path = "''clean.json''" and st = ?st]
      reads(2) unfolding st0 handles(2) [symmetric] by blast
  have object: "sanitize_file ?D demo_faker demo_io ''object.json'' ''clean.json'' ?st
      = (failure ''Error reading file: JSON root must be an array at line 1, column 1'', demo_io, ?st)"
    using failed_run [where w = demo_io and input_path = "''object.json''" and D = ?D
        and F = demo_faker and output_path = "''clean.json''" and st = ?st]
      reads(3) unfolding st0 handles(3) [symmetric] by blast
  have walk1: "sanitize_records ?D demo_faker [JInt 1] ?st
      = (Inl (AttributeError ([CHR 0x27] @ ''int'' @ [CHR 0x27] @ '' object has no attribute ''
                @ [CHR 0x27] @ ''items'' @ [CHR 0x27])), ?st)"
    by simp
  have handle1: "handle (AttributeError ([CHR 0x27] @ ''int'' @ [CHR 0x27] @ '' object has no attribute ''
                @ [CHR 0x27] @ ''items'' @ [CHR 0x27]))
      = failure (''Unexpected error during sanitization: '' @ [CHR 0x27] @ ''int'' @ [CHR 0x27]
                   @ '' object has no attribute '' @ [CHR 0x27] @ ''items'' @ [CHR 0x27])"
    by (simp add: handle_def)
  have numbers: "sanitize_file ?D demo_faker demo_io ''numbers.json'' ''clean.json'' ?st
      = (failure (''Unexpected error during sanitization: '' @ [CHR 0x27] @ ''int'' @ [CHR 0x27]
                   @ '' object has no attribute '' @ [CHR 0x27] @ ''items'' @ [CHR 0x27]),
         demo_io, ?st)"
    using failed_run [where w = demo_io and input_path = "''numbers.json''" and D = ?D
        and F = demo_faker and output_path = "''clean.json''" and st = ?st]
      reads(4) walk1 unfolding st0 handle1 [symmetric] by blast
  have "\<forall>r \<in> set [JObj [(''id'', JInt 7)]]. is_object r \<and> string_free r \<and> unique_keys r"
    by (simp add: is_object_def)
  then have walk2: "sanitize_records ?D demo_faker [JObj [(''id'', JInt 7)]] ?st
      = (Inr [JObj [(''id'', JInt 7)]], ?st)"
    by (rule records_string_free)
  have faults: "mkdir_fault demo_io ''/proc/out.json'' = None"
    "open_fault demo_io ''/proc/out.json'' = Some PermissionFault"
    "mkdir_fault demo_io ''clean.json'' = None" "open_fault demo_io ''clean.json'' = None"
    "dump_fault demo_io ''clean.json'' = None"
    by code_simp+
  have denied: "sanitize_file ?D demo_faker demo_io ''in.json'' ''/proc/out.json'' ?st
      = (failure ''Permission denied writing to: /proc/out.json'', demo_io, ?st)"
    using failed_run [where w = demo_io and input_path = "''in.json''" and D = ?D
        and F = demo_faker and output_path = "''/proc/out.json''" and st = ?st]
      reads(5) walk2 faults(1,2) unfolding st0 handles(4) [symmetric] by blast
  have written: "sanitize_file ?D demo_faker demo_io ''in.json'' ''clean.json'' ?st
      = (\<lparr>success = True, records_processed = length [JObj [(''id'', JInt 7)]],
          pii_fields_detected = pii_fields_detected_ctr ?st,
          pii_replacements_made = pii_replacements_made_ctr ?st, error_message = None\<rparr>,
         demo_io\<lparr>disk := (disk demo_io)(''clean.json'' \<mapsto> dumps demo_io [JObj [(''id'', JInt 7)]])\<rparr>,
         ?st)"
    using failed_run [where w = demo_io and input_path = "''in.json''" and D = ?D
        and F = demo_faker and output_path = "''clean.json''" and st = ?st]
      reads(5) walk2 faults(3,4,5) unfolding st0 by blast
  have shape: "length [JObj [(''id'', JInt 7)]] = 1" "pii_fields_detected_ctr ?st = 0"
    "pii_replacements_made_ctr ?st = 0" "dumps demo_io [JObj [(''id'', JInt 7)]] = demo_rendering"
    by (simp_all add: new_sanitizer_def demo_io_def)
  from broken broken_reported missing object numbers denied written [unfolded shape]
  show ?thesis by blast
qed

text \<open>As stated, with no output written by any failed run, the claim fails: the output
  file is opened for writing before \<open>json.dump\<close> runs and is not removed when it raises.
  With the disk full after five characters, the run reports the failure and \<open>out.json\<close>,
  absent before, holds the first five characters of the sanitized array.\<close>

theorem partial_output_counterexample:
  "\<not> success (fst (sanitize_file [email_detect, phone_detect, card_detect] demo_faker demo_io
      ''in.json'' ''out.json'' (new_sanitizer 0)))
   \<and> error_message (fst (sanitize_file [email_detect, phone_detect, card_detect] demo_faker demo_io
      ''in.json'' ''out.json'' (new_sanitizer 0)))
      = Some ''Error writing output file: [Errno 28] No space left on device''
   \<and> disk demo_io ''out.json'' = None
   \<and> disk (fst (snd (sanitize_file [email_detect, phone_detect, card_detect] demo_faker demo_io
      ''in.json'' ''out.json'' (new_sanitizer 0)))) ''out.json''
      = Some (''['' @ [CHR 0x0A] @ ''  {'')"
  by code_simp


end
